theory Spec2Isabelle
  imports Main
begin

section \<open>Failures\<close>

text \<open>
  Every \<^verbatim>\<open>assert(...)\<close> and \<^verbatim>\<open>throw\<close> of \<^verbatim>\<open>editorCore.ts\<close> is a value of
  type \<open>failure\<close>; the source's messages are Chinese text, so each constructor names the
  check and the comments below give its line.
\<close>

datatype failure =
    ResumeMoreThanPause      \<comment> \<open>line 69: count >= 0\<close>
  | NoHistoryForUndo         \<comment> \<open>line 114\<close>
  | NoHistoryForRedo         \<comment> \<open>line 119\<close>
  | NotEditable              \<comment> \<open>line 229\<close>
  | EmptyContent             \<comment> \<open>line 231\<close>
  | NotSingleChar            \<comment> \<open>line 233\<close>
  | NotAChord                \<comment> \<open>lines 284, 386: the input must be a chord node\<close>
  | NoNextChord              \<comment> \<open>lines 288, 392\<close>
  | BadBetweenCount          \<comment> \<open>line 298\<close>
  | HeadNotChord             \<comment> \<open>line 560\<close>
  | TailNotChord             \<comment> \<open>line 567\<close>
  | MixedPurity              \<comment> \<open>line 311\<close>
  | BoundaryIsUnderline      \<comment> \<open>lines 324, 339\<close>
  | NotSameLevel             \<comment> \<open>lines 296, 325, 340, 357\<close>
  | ExtendNeedsChord         \<comment> \<open>lines 327, 342\<close>
  | MergeNeedsUnderline      \<comment> \<open>line 355\<close>
  | MergeWithSelf            \<comment> \<open>line 356\<close>
  | MergeTypeDiffers         \<comment> \<open>line 358\<close>
  | NotInUnderline           \<comment> \<open>line 387\<close>
  | ChordIsLastChild         \<comment> \<open>line 388\<close>
  | NoCommonUnderline        \<comment> \<open>lines 395, 402\<close>
  | BaseNotInUnderline       \<comment> \<open>lines 416, 432, 448\<close>
  | BaseNotAnchor            \<comment> \<open>lines 418, 434\<close>
  | ShrinkAtLastAnchor       \<comment> \<open>line 423\<close>
  | ShrinkAtFirstAnchor      \<comment> \<open>line 439\<close>
  | SplitAtFirstAnchor       \<comment> \<open>line 459\<close>
  | SplitAtLastAnchor        \<comment> \<open>line 460\<close>
  | BadInsertType            \<comment> \<open>line 673\<close>
  | TypeError                \<comment> \<open>the runtime's error for a property read on null or undefined\<close>
  | UserFailure nat          \<comment> \<open>any other value a caller's action throws\<close>

section \<open>The operation coordinator (class AtomEditOperation)\<close>

text \<open>
  The class holds a nesting counter and two callbacks. The callbacks close over the
  object that owns the coordinator, so the model keeps the counter as a field of that
  object's state: every state that has a coordinator is a record extending
  \<open>AtomEditOperation\<close>, and the callbacks are functions on the whole state.
  An action (the \<^verbatim>\<open>func\<close> handed to \<^verbatim>\<open>run\<close>) takes the state and gives back
  either the value it returns or the failure it throws, together with the state
  it leaves behind (a throw does not undo the mutations made before it).
\<close>

record AtomEditOperation =
  count :: int

definition beginOperation :: "'m AtomEditOperation_scheme \<Rightarrow> 'm AtomEditOperation_scheme" where
  "beginOperation s = s\<lparr>count := count s + 1\<rparr>"

definition endOperation ::
  "('m AtomEditOperation_scheme \<Rightarrow> 'm AtomEditOperation_scheme) \<Rightarrow>
   ('m AtomEditOperation_scheme \<Rightarrow> 'm AtomEditOperation_scheme) \<Rightarrow>
   bool \<Rightarrow> 'm AtomEditOperation_scheme \<Rightarrow> failure option \<times> 'm AtomEditOperation_scheme" where
  "endOperation onDone onFailed failed s =
     (let s1 = s\<lparr>count := count s - 1\<rparr> in
      if \<not> (count s1 \<ge> 0) then (Some ResumeMoreThanPause, s1)
      else
        let s2 = (if count s1 = 0 \<and> \<not> failed then onDone s1 else s1);
            s3 = (if failed then onFailed s2 else s2)
        in (None, s3))"

text \<open>
  \<^verbatim>\<open>run\<close>: the \<^verbatim>\<open>finally\<close> block runs \<^verbatim>\<open>endOperation\<close> on both exits; a throw
  from inside \<^verbatim>\<open>finally\<close> replaces the pending return value or exception.
\<close>

definition run ::
  "('m AtomEditOperation_scheme \<Rightarrow> 'm AtomEditOperation_scheme) \<Rightarrow>
   ('m AtomEditOperation_scheme \<Rightarrow> 'm AtomEditOperation_scheme) \<Rightarrow>
   ('m AtomEditOperation_scheme \<Rightarrow> (failure + 'a) \<times> 'm AtomEditOperation_scheme) \<Rightarrow>
   'm AtomEditOperation_scheme \<Rightarrow> (failure + 'a) \<times> 'm AtomEditOperation_scheme" where
  "run onDone onFailed func s =
     (let s1 = beginOperation s;
          (r, s2) = func s1;
          failed = isl r;
          (e, s3) = endOperation onDone onFailed failed s2
      in (case e of Some err \<Rightarrow> (Inl err, s3) | None \<Rightarrow> (r, s3)))"

text \<open>
  \<^verbatim>\<open>runAsync\<close> opens a frame and hands out a handle (class
  \<^verbatim>\<open>AsyncAtomEditOperation\<close>, lines 10 to 47) whose \<^verbatim>\<open>end\<close> and \<^verbatim>\<open>fail\<close> close the
  frame, once: the handle's only field is the flag \<^verbatim>\<open>disposed\<close>. Its \<^verbatim>\<open>run\<close> does
  nothing on a disposed handle and otherwise calls the function, and \<^verbatim>\<open>fail\<close> before
  it throws again what the function threw.
\<close>

record AsyncAtomEditOperation =
  disposed :: bool

definition runAsync ::
  "'m AtomEditOperation_scheme \<Rightarrow> AsyncAtomEditOperation \<times> 'm AtomEditOperation_scheme" where
  "runAsync s = (\<lparr>disposed = False\<rparr>, beginOperation s)"

definition AsyncAtomEditOperation_end ::
  "('m AtomEditOperation_scheme \<Rightarrow> 'm AtomEditOperation_scheme) \<Rightarrow>
   ('m AtomEditOperation_scheme \<Rightarrow> 'm AtomEditOperation_scheme) \<Rightarrow>
   AsyncAtomEditOperation \<Rightarrow> 'm AtomEditOperation_scheme \<Rightarrow>
   failure option \<times> AsyncAtomEditOperation \<times> 'm AtomEditOperation_scheme" where
  "AsyncAtomEditOperation_end onDone onFailed h s =
     (if \<not> disposed h
      then (let (e, s1) = endOperation onDone onFailed False s in (e, h\<lparr>disposed := True\<rparr>, s1))
      else (None, h, s))"

definition AsyncAtomEditOperation_fail ::
  "('m AtomEditOperation_scheme \<Rightarrow> 'm AtomEditOperation_scheme) \<Rightarrow>
   ('m AtomEditOperation_scheme \<Rightarrow> 'm AtomEditOperation_scheme) \<Rightarrow>
   AsyncAtomEditOperation \<Rightarrow> 'm AtomEditOperation_scheme \<Rightarrow>
   failure option \<times> AsyncAtomEditOperation \<times> 'm AtomEditOperation_scheme" where
  "AsyncAtomEditOperation_fail onDone onFailed h s =
     (if \<not> disposed h
      then (let (e, s1) = endOperation onDone onFailed True s in (e, h\<lparr>disposed := True\<rparr>, s1))
      else (None, h, s))"

definition AsyncAtomEditOperation_run ::
  "('m AtomEditOperation_scheme \<Rightarrow> 'm AtomEditOperation_scheme) \<Rightarrow>
   ('m AtomEditOperation_scheme \<Rightarrow> 'm AtomEditOperation_scheme) \<Rightarrow>
   ('m AtomEditOperation_scheme \<Rightarrow> (failure + 'a) \<times> 'm AtomEditOperation_scheme) \<Rightarrow>
   AsyncAtomEditOperation \<Rightarrow> 'm AtomEditOperation_scheme \<Rightarrow>
   (failure + unit) \<times> AsyncAtomEditOperation \<times> 'm AtomEditOperation_scheme" where
  "AsyncAtomEditOperation_run onDone onFailed func h s =
     (if disposed h then (Inr (), h, s)
      else (case func s of
          (Inr v, s1) \<Rightarrow> (Inr (), h, s1)
        | (Inl e, s1) \<Rightarrow>
            (case AsyncAtomEditOperation_fail onDone onFailed h s1 of
               (Some err, h1, s2) \<Rightarrow> (Inl err, h1, s2)
             | (None, h1, s2) \<Rightarrow> (Inl e, h1, s2))))"

text \<open>A chain of \<open>d\<close> nested \<^verbatim>\<open>run\<close> calls around an innermost action.\<close>

fun nested_run ::
  "nat \<Rightarrow> ('m AtomEditOperation_scheme \<Rightarrow> 'm AtomEditOperation_scheme) \<Rightarrow>
   ('m AtomEditOperation_scheme \<Rightarrow> 'm AtomEditOperation_scheme) \<Rightarrow>
   ('m AtomEditOperation_scheme \<Rightarrow> (failure + 'a) \<times> 'm AtomEditOperation_scheme) \<Rightarrow>
   'm AtomEditOperation_scheme \<Rightarrow> (failure + 'a) \<times> 'm AtomEditOperation_scheme" where
  "nested_run 0 onDone onFailed func = func"
| "nested_run (Suc d) onDone onFailed func = run onDone onFailed (nested_run d onDone onFailed func)"

text \<open>
  An observer for the callbacks: a state whose only content besides the counter is the
  list of callback invocations so far.
\<close>

datatype callback_event = Done | Failed

record callback_log = AtomEditOperation +
  events :: "callback_event list"

definition log_done :: "callback_log \<Rightarrow> callback_log" where
  "log_done s = s\<lparr>events := events s @ [Done]\<rparr>"

definition log_failed :: "callback_log \<Rightarrow> callback_log" where
  "log_failed s = s\<lparr>events := events s @ [Failed]\<rparr>"

definition raising :: "failure \<Rightarrow> callback_log \<Rightarrow> (failure + unit) \<times> callback_log" where
  "raising e s = (Inl e, s)"


section \<open>The document tree (sheet nodes and the tree primitive layer)\<close>

text \<open>
  Modelled from the spec: the node type and the tree primitives (\<^verbatim>\<open>@/utils/sheetNode\<close>:
  \<^verbatim>\<open>ENodeType\<close>, \<^verbatim>\<open>SheetNode\<close>, \<^verbatim>\<open>NodeUtils\<close>) are imported by
  \<^verbatim>\<open>editorCore.ts\<close> and that module is not among the source files. The spec (section 3)
  gives the node as a tagged variant over Text, Mark, NewLine, Chord, ChordPure, Underline
  and UnderlinePure plus a root container, with a string content, chord data and an ordered
  list of owned children. The chord data type (\<^verbatim>\<open>@/utils/chord\<close>) is a type parameter.

  The parent back-reference is "for traversal only": in this value model a node of the
  document is addressed by its path from the root (the child indices), its parent is the
  path without its last index, and \<^verbatim>\<open>clone\<close> is the identity, since two equal values
  never alias.
\<close>

datatype ENodeType = Root | Text | Mark | NewLine | Chord | ChordPure | Underline | UnderlinePure

datatype 'c SheetNode =
  SheetNode (ntype: ENodeType) (content: string) (chord: "'c option") (children: "'c SheetNode list")

type_synonym path = "nat list"

definition isChord :: "'c SheetNode \<Rightarrow> bool" where
  "isChord n = (ntype n = Chord \<or> ntype n = ChordPure)"

definition isUnderline :: "'c SheetNode \<Rightarrow> bool" where
  "isUnderline n = (ntype n = Underline \<or> ntype n = UnderlinePure)"

definition clone :: "'c SheetNode \<Rightarrow> 'c SheetNode" where
  "clone n = n"

definition setChildren :: "'c SheetNode list \<Rightarrow> 'c SheetNode \<Rightarrow> 'c SheetNode" where
  "setChildren cs n = SheetNode (ntype n) (content n) (chord n) cs"

definition setContent :: "string \<Rightarrow> 'c SheetNode \<Rightarrow> 'c SheetNode" where
  "setContent c n = SheetNode (ntype n) c (chord n) (children n)"

definition setChord :: "'c option \<Rightarrow> 'c SheetNode \<Rightarrow> 'c SheetNode" where
  "setChord h n = SheetNode (ntype n) (content n) h (children n)"

text \<open>The node at a path, if the path leads to one.\<close>

fun node_at :: "'c SheetNode \<Rightarrow> path \<Rightarrow> 'c SheetNode option" where
  "node_at n [] = Some n"
| "node_at n (i # p) = (if i < length (children n) then node_at (children n ! i) p else None)"

text \<open>A mutation of the node at a path; the rest of the tree is kept.\<close>

fun update_at :: "path \<Rightarrow> ('c SheetNode \<Rightarrow> 'c SheetNode) \<Rightarrow> 'c SheetNode \<Rightarrow> 'c SheetNode" where
  "update_at [] f n = f n"
| "update_at (i # p) f n =
     (if i < length (children n)
      then setChildren ((children n)[i := update_at p f (children n ! i)]) n
      else n)"

text \<open>Document order: the paths of all nodes under a node, depth first, parents first.\<close>

fun paths :: "'c SheetNode \<Rightarrow> path list"
  and paths_from :: "nat \<Rightarrow> 'c SheetNode list \<Rightarrow> path list" where
  "paths (SheetNode t c h cs) = [] # paths_from 0 cs"
| "paths_from i [] = []"
| "paths_from i (n # ns) = map ((#) i) (paths n) @ paths_from (Suc i) ns"

text \<open>
  \<^verbatim>\<open>NodeUtils.createTextNodes\<close> (one text node per character),
  \<^verbatim>\<open>createTextNode\<close>, \<^verbatim>\<open>createMarkNode\<close>, \<^verbatim>\<open>createNewLineNode\<close> and
  \<^verbatim>\<open>createUnderlineNode(isPure)\<close>: fresh nodes without children.
\<close>

definition createTextNode :: "string \<Rightarrow> 'c SheetNode" where
  "createTextNode s = SheetNode Text s None []"

definition createTextNodes :: "string \<Rightarrow> 'c SheetNode list" where
  "createTextNodes s = map (\<lambda>ch. createTextNode [ch]) s"

definition createMarkNode :: "string \<Rightarrow> 'c SheetNode" where
  "createMarkNode s = SheetNode Mark s None []"

definition createNewLineNode :: "'c SheetNode" where
  "createNewLineNode = SheetNode NewLine [] None []"

definition createUnderlineNode :: "bool \<Rightarrow> 'c SheetNode" where
  "createUnderlineNode isPure = SheetNode (if isPure then UnderlinePure else Underline) [] None []"

section \<open>The snapshot history (class History)\<close>

text \<open>
  Modelled from the spec: the module \<^verbatim>\<open>@/utils/history\<close> is not among the source files. The spec
  (section 6) asks for a bounded buffer with a cursor, where \<^verbatim>\<open>add\<close> truncates the
  forward (redo) entries beyond the cursor and evicts the oldest entry once the capacity
  is exceeded, \<^verbatim>\<open>clear(seed)\<close> resets to one entry, and \<^verbatim>\<open>current\<close>, \<^verbatim>\<open>hasPrev\<close>,
  \<^verbatim>\<open>hasNext\<close>, \<^verbatim>\<open>goPrev\<close>, \<^verbatim>\<open>goNext\<close> read and move the cursor.
  The buffer is kept as the entry at the cursor, the entries before it (nearest first)
  and the entries after it (nearest first), so the cursor always stands on an entry.
\<close>

record 'a History =
  capacity :: nat
  older :: "'a list"
  current :: 'a
  newer :: "'a list"

definition History_new :: "nat \<Rightarrow> 'a \<Rightarrow> 'a History" where
  "History_new maxSize initialValue =
     \<lparr>capacity = maxSize, older = [], current = initialValue, newer = []\<rparr>"

definition History_size :: "'a History \<Rightarrow> nat" where
  "History_size h = length (older h) + 1 + length (newer h)"

definition History_add :: "'a \<Rightarrow> 'a History \<Rightarrow> 'a History" where
  "History_add x h =
     (let entries = current h # older h
      in h\<lparr>older := (if length entries + 1 > capacity h then butlast entries else entries),
            current := x,
            newer := []\<rparr>)"

definition History_clear :: "'a \<Rightarrow> 'a History \<Rightarrow> 'a History" where
  "History_clear seed h = h\<lparr>older := [], current := seed, newer := []\<rparr>"

definition getCurrent :: "'a History \<Rightarrow> 'a" where
  "getCurrent h = current h"

definition hasPrev :: "'a History \<Rightarrow> bool" where
  "hasPrev h = (older h \<noteq> [])"

definition hasNext :: "'a History \<Rightarrow> bool" where
  "hasNext h = (newer h \<noteq> [])"

text \<open>\<^verbatim>\<open>goPrev\<close> and \<^verbatim>\<open>goNext\<close> move the cursor; the entry they return is the new current one.\<close>

definition goPrev :: "'a History \<Rightarrow> 'a History" where
  "goPrev h = (case older h of
       [] \<Rightarrow> h
     | x # xs \<Rightarrow> h\<lparr>older := xs, current := x, newer := current h # newer h\<rparr>)"

definition goNext :: "'a History \<Rightarrow> 'a History" where
  "goNext h = (case newer h of
       [] \<Rightarrow> h
     | x # xs \<Rightarrow> h\<lparr>older := current h # older h, current := x, newer := xs\<rparr>)"

section \<open>The editor (classes UndoableEditor and SheetEditorCore)\<close>

definition MAX_UNDO_TIMES :: nat where
  "MAX_UNDO_TIMES = 100"

text \<open>
  The editor's state: the coordinator's counter, the sheet key of the metadata (the only
  metadata field the editor's commands read or write), the live tree and the history of
  snapshots. \<open>'k\<close> is the type of keys (\<^verbatim>\<open>@/utils/chord\<close>, a module that is not
  among the source files).
\<close>

record ('c, 'k) SheetEditorCore = AtomEditOperation +
  sheetKey :: 'k
  root :: "'c SheetNode"
  history :: "'c SheetNode History"

type_synonym ('c, 'k, 'a) action =
  "('c, 'k) SheetEditorCore \<Rightarrow> (failure + 'a) \<times> ('c, 'k) SheetEditorCore"

definition newSheetEditorCore :: "'k \<Rightarrow> 'c SheetNode \<Rightarrow> ('c, 'k) SheetEditorCore" where
  "newSheetEditorCore key r =
     \<lparr>count = 0, sheetKey = key, root = r, history = History_new MAX_UNDO_TIMES (clone r)\<rparr>"

definition canUndo :: "('c, 'k) SheetEditorCore \<Rightarrow> bool" where
  "canUndo s = hasPrev (history s)"

definition canRedo :: "('c, 'k) SheetEditorCore \<Rightarrow> bool" where
  "canRedo s = hasNext (history s)"

definition getToHistory :: "('c, 'k) SheetEditorCore \<Rightarrow> 'c SheetNode" where
  "getToHistory s = clone (root s)"

text \<open>
  \<^verbatim>\<open>__replaceSheet(root, clone)\<close>, lines 155 to 159. The live root object stays: first
  its children are emptied, then the given root is cloned when asked, and then the
  children of the given root are appended to the live root. The order matters when the
  given root is the live root object itself, whose children are gone by the time they
  are read; so the argument is either the live root or a tree of its own.
\<close>

datatype 'c SheetArg = LiveRoot | OtherRoot "'c SheetNode"

definition replaceSheet_internal ::
  "'c SheetArg \<Rightarrow> bool \<Rightarrow> ('c, 'k) SheetEditorCore \<Rightarrow> ('c, 'k) SheetEditorCore" where
  "replaceSheet_internal r cl s =
     (let s1 = s\<lparr>root := setChildren [] (root s)\<rparr>;
          given = (case r of LiveRoot \<Rightarrow> root s1 | OtherRoot t \<Rightarrow> t);
          r' = (if cl then clone given else given)
      in s1\<lparr>root := setChildren (children (root s1) @ children r') (root s1)\<rparr>)"

text \<open>The snapshots handed to \<^verbatim>\<open>setFromHistory\<close> are copies that the history owns.\<close>

definition setFromHistory :: "'c SheetNode \<Rightarrow> ('c, 'k) SheetEditorCore \<Rightarrow> ('c, 'k) SheetEditorCore" where
  "setFromHistory snapshot s = replaceSheet_internal (OtherRoot snapshot) True s"

definition addHistory :: "('c, 'k) SheetEditorCore \<Rightarrow> ('c, 'k) SheetEditorCore" where
  "addHistory s = s\<lparr>history := History_add (getToHistory s) (history s)\<rparr>"

definition retoreNewestHistory :: "('c, 'k) SheetEditorCore \<Rightarrow> ('c, 'k) SheetEditorCore" where
  "retoreNewestHistory s = setFromHistory (getCurrent (history s)) s"

definition clearHistory :: "('c, 'k) SheetEditorCore \<Rightarrow> ('c, 'k) SheetEditorCore" where
  "clearHistory s = s\<lparr>history := History_clear (getToHistory s) (history s)\<rparr>"

definition undo :: "('c, 'k, unit) action" where
  "undo s =
     (if \<not> canUndo s then (Inl NoHistoryForUndo, s)
      else let h = goPrev (history s)
           in (Inr (), setFromHistory (getCurrent h) (s\<lparr>history := h\<rparr>)))"

definition redo :: "('c, 'k, unit) action" where
  "redo s =
     (if \<not> canRedo s then (Inl NoHistoryForRedo, s)
      else let h = goNext (history s)
           in (Inr (), setFromHistory (getCurrent h) (s\<lparr>history := h\<rparr>)))"

definition replaceSheet ::
  "'c SheetArg \<Rightarrow> bool \<Rightarrow> bool \<Rightarrow> ('c, 'k) SheetEditorCore \<Rightarrow> ('c, 'k) SheetEditorCore" where
  "replaceSheet r cl clearHist s =
     (let s1 = replaceSheet_internal r cl s
      in if clearHist then clearHistory s1 else addHistory s1)"

definition clearSheet :: "('c, 'k) SheetEditorCore \<Rightarrow> ('c, 'k) SheetEditorCore" where
  "clearSheet s = addHistory (s\<lparr>root := setChildren [] (root s)\<rparr>)"

definition runAtomOperation :: "('c, 'k, 'a) action \<Rightarrow> ('c, 'k, 'a) action" where
  "runAtomOperation func = run addHistory retoreNewestHistory func"

definition runAtomOperationAsync ::
  "('c, 'k) SheetEditorCore \<Rightarrow> AsyncAtomEditOperation \<times> ('c, 'k) SheetEditorCore" where
  "runAtomOperationAsync s = runAsync s"

text \<open>
  The body of a command that only works on the live tree: it either gives the new tree
  or throws before it has changed anything.
\<close>

definition onRoot :: "('c SheetNode \<Rightarrow> failure + 'c SheetNode) \<Rightarrow> ('c, 'k, unit) action" where
  "onRoot f s = (case f (root s) of Inl e \<Rightarrow> (Inl e, s) | Inr r \<Rightarrow> (Inr (), s\<lparr>root := r\<rparr>))"


subsection \<open>Insertion\<close>

text \<open>
  \<^verbatim>\<open>insertAfter\<close>, lines 193 to 196: while the target is the last child of an underline,
  the target becomes that underline. A node without a parent (the root, or a path that
  leads nowhere) makes the reads \<^verbatim>\<open>targetNode.parent.isUnderline()\<close> and
  \<^verbatim>\<open>targetNode.parent.children\<close> fail.
\<close>

function insertAfter_target :: "'c SheetNode \<Rightarrow> path \<Rightarrow> failure + path" where
  "insertAfter_target t p =
     (if p = [] then Inl TypeError
      else case node_at t (butlast p) of
          None \<Rightarrow> Inl TypeError
        | Some parent \<Rightarrow>
            if \<not> last p < length (children parent) then Inl TypeError
            else if Suc (last p) = length (children parent) \<and> isUnderline parent
              then insertAfter_target t (butlast p)
              else Inr p)"
  by pat_completeness auto
termination
  by (relation "measure (\<lambda>(t, p). length p)") auto

declare insertAfter_target.simps [simp del]

function insertBefore_target :: "'c SheetNode \<Rightarrow> path \<Rightarrow> failure + path" where
  "insertBefore_target t p =
     (if p = [] then Inl TypeError
      else case node_at t (butlast p) of
          None \<Rightarrow> Inl TypeError
        | Some parent \<Rightarrow>
            if \<not> last p < length (children parent) then Inl TypeError
            else if last p = 0 \<and> isUnderline parent
              then insertBefore_target t (butlast p)
              else Inr p)"
  by pat_completeness auto
termination
  by (relation "measure (\<lambda>(t, p). length p)") auto

declare insertBefore_target.simps [simp del]

text \<open>\<^verbatim>\<open>children.splice(index, 0, ...nodes)\<close> on the children of the node at a path.\<close>

definition splice_at :: "path \<Rightarrow> nat \<Rightarrow> 'c SheetNode list \<Rightarrow> 'c SheetNode \<Rightarrow> 'c SheetNode" where
  "splice_at parent index nodes t =
     update_at parent (\<lambda>n. setChildren (take index (children n) @ nodes @ drop index (children n)) n) t"

definition insertAfter_body :: "path \<Rightarrow> 'c SheetNode list \<Rightarrow> 'c SheetNode \<Rightarrow> failure + 'c SheetNode" where
  "insertAfter_body node toInsertNodes t =
     (case insertAfter_target t node of
        Inl e \<Rightarrow> Inl e
      | Inr targetNode \<Rightarrow>
          let index = last targetNode + 1
          in Inr (splice_at (butlast targetNode) index toInsertNodes t))"

definition insertBefore_body :: "path \<Rightarrow> 'c SheetNode list \<Rightarrow> 'c SheetNode \<Rightarrow> failure + 'c SheetNode" where
  "insertBefore_body node toInsertNodes t =
     (case insertBefore_target t node of
        Inl e \<Rightarrow> Inl e
      | Inr targetNode \<Rightarrow>
          let index = last targetNode
          in Inr (splice_at (butlast targetNode) index toInsertNodes t))"

definition insertAfter :: "path \<Rightarrow> 'c SheetNode list \<Rightarrow> ('c, 'k, unit) action" where
  "insertAfter node data = runAtomOperation (onRoot (insertAfter_body node data))"

definition insertBefore :: "path \<Rightarrow> 'c SheetNode list \<Rightarrow> ('c, 'k, unit) action" where
  "insertBefore node data = runAtomOperation (onRoot (insertBefore_body node data))"

subsection \<open>Content update\<close>

text \<open>
  \<^verbatim>\<open>updateContent\<close>, lines 227 to 256. The content is written into the node before the
  nested \<^verbatim>\<open>insertAfter\<close> runs, so a failure of the latter leaves the write behind for
  the rollback.
\<close>

definition updateContent_body :: "path \<Rightarrow> string \<Rightarrow> ('c, 'k, unit) action" where
  "updateContent_body node newContent s =
     (case node_at (root s) node of
        None \<Rightarrow> (Inl TypeError, s)
      | Some n \<Rightarrow>
          if \<not> (ntype n = Text \<or> ntype n = Chord \<or> ntype n = Mark) then (Inl NotEditable, s)
          else if \<not> length newContent > 0 then (Inl EmptyContent, s)
          else if (ntype n = Text \<or> ntype n = Chord) \<and> \<not> length (content n) = 1
            then (Inl NotSingleChar, s)
          else if ntype n = Text \<or> ntype n = Chord then
            (let s1 = s\<lparr>root := update_at node (setContent [hd newContent]) (root s)\<rparr>;
                 remaining = tl newContent
             in if length remaining > 0
                then insertAfter node (createTextNodes remaining) s1
                else (Inr (), s1))
          else (Inr (), s\<lparr>root := update_at node (setContent newContent) (root s)\<rparr>))"

definition updateContent :: "path \<Rightarrow> string \<Rightarrow> ('c, 'k, unit) action" where
  "updateContent node newContent = runAtomOperation (updateContent_body node newContent)"

subsection \<open>The insert command\<close>

text \<open>
  \<^verbatim>\<open>insert(node, type, insertBefore)\<close>, lines 648 to 683. The answer of the blocking
  \<^verbatim>\<open>prompt\<close> call is a parameter: \<open>None\<close> for a cancelled dialog (\<^verbatim>\<open>null\<close>),
  \<open>Some text\<close> otherwise; \<^verbatim>\<open>!text\<close> holds for \<^verbatim>\<open>null\<close> and for the empty string.
\<close>

definition noText :: "string option \<Rightarrow> bool" where
  "noText answer = (case answer of None \<Rightarrow> True | Some text \<Rightarrow> text = [])"

definition insertNode_body ::
  "string option \<Rightarrow> path \<Rightarrow> string \<Rightarrow> bool \<Rightarrow> ('c, 'k, unit) action" where
  "insertNode_body answer node type placeBefore s =
     (let place = (\<lambda>newNodes. if placeBefore then insertBefore node newNodes s
                               else insertAfter node newNodes s)
      in if type = ''text'' then
           (if noText answer then (Inr (), s) else place (createTextNodes (the answer)))
         else if type = ''space'' then place (createTextNodes '' '')
         else if type = ''mark'' then
           (if noText answer then (Inr (), s) else place [createMarkNode (the answer)])
         else if type = ''newline'' then place [createNewLineNode]
         else (Inl BadInsertType, s))"

definition insertNode ::
  "string option \<Rightarrow> path \<Rightarrow> string \<Rightarrow> bool \<Rightarrow> ('c, 'k, unit) action" where
  "insertNode answer node type placeBefore =
     runAtomOperation (insertNode_body answer node type placeBefore)"

subsection \<open>Key shift\<close>

text \<open>
  \<^verbatim>\<open>setKey\<close>, lines 633 to 646. \<^verbatim>\<open>Key.isEqual\<close>, \<^verbatim>\<open>Key.getOffset\<close> and
  \<^verbatim>\<open>Chord.shiftKey\<close> belong to \<^verbatim>\<open>@/utils/chord\<close> and are parameters here. The
  traversal visits the nodes in document order and rewrites the chord data of each chord
  node; a chord node without chord data makes \<^verbatim>\<open>node.chord.shiftKey\<close> fail there,
  with the nodes before it already rewritten.
\<close>

fun shiftChords :: "('c \<Rightarrow> 'c) \<Rightarrow> path list \<Rightarrow> 'c SheetNode \<Rightarrow> failure option \<times> 'c SheetNode" where
  "shiftChords f [] t = (None, t)"
| "shiftChords f (p # ps) t =
     (case node_at t p of
        None \<Rightarrow> (Some TypeError, t)
      | Some n \<Rightarrow>
          if isChord n then
            (case chord n of
               None \<Rightarrow> (Some TypeError, t)
             | Some c \<Rightarrow> shiftChords f ps (update_at p (setChord (Some (f c))) t))
          else shiftChords f ps t)"

definition setKey ::
  "('k \<Rightarrow> 'k \<Rightarrow> bool) \<Rightarrow> ('k \<Rightarrow> 'k \<Rightarrow> 'o) \<Rightarrow> ('c \<Rightarrow> 'o \<Rightarrow> 'c) \<Rightarrow>
   'k \<Rightarrow> bool \<Rightarrow> ('c, 'k, unit) action" where
  "setKey isEqual getOffset shiftKey newKey shiftChord s =
     (let oldKey = sheetKey s
      in if isEqual newKey oldKey then (Inr (), s)
         else
           let s1 = s\<lparr>sheetKey := newKey\<rparr>
           in if shiftChord then
                (let offset = getOffset oldKey newKey;
                     (e, r) = shiftChords (\<lambda>c. shiftKey c offset) (paths (root s1)) (root s1);
                     s2 = s1\<lparr>root := r\<rparr>
                 in (case e of Some err \<Rightarrow> (Inl err, s2) | None \<Rightarrow> (Inr (), s2)))
              else (Inr (), s1))"



subsection \<open>Tree primitives used by the underline algorithms\<close>

text \<open>
  Modelled from the spec: the \<^verbatim>\<open>NodeUtils\<close> helpers below belong to
  \<^verbatim>\<open>@/utils/sheetNode\<close>, which is not among the source files; the spec (section 6) lists
  them as append, prepend, remove and replace of children, sibling and index queries,
  ancestor-chain and nearest-common-ancestor queries, the forward search for the next
  node of a given discriminant and the depth-first traversal with an early stop.
\<close>

definition childrenAt :: "'c SheetNode \<Rightarrow> path \<Rightarrow> 'c SheetNode list" where
  "childrenAt t p = (case node_at t p of None \<Rightarrow> [] | Some n \<Rightarrow> children n)"

text \<open>\<^verbatim>\<open>Array.prototype.slice(lo, hi)\<close>: empty when \<open>hi \<le> lo\<close>.\<close>

definition slice :: "nat \<Rightarrow> nat \<Rightarrow> 'a list \<Rightarrow> 'a list" where
  "slice lo hi xs = take (hi - lo) (drop lo xs)"

text \<open>
  \<^verbatim>\<open>NodeUtils.findNextNodeByType(node, type)\<close>: the first node after \<open>node\<close> in document
  order that has the given type.
\<close>

definition hasType :: "'c SheetNode \<Rightarrow> ENodeType \<Rightarrow> path \<Rightarrow> bool" where
  "hasType t ty q = (case node_at t q of None \<Rightarrow> False | Some n \<Rightarrow> ntype n = ty)"

definition findNextNodeByType :: "'c SheetNode \<Rightarrow> path \<Rightarrow> ENodeType \<Rightarrow> path option" where
  "findNextNodeByType t node ty = find (hasType t ty) (tl (dropWhile (\<lambda>q. q \<noteq> node) (paths t)))"

text \<open>
  \<^verbatim>\<open>NodeUtils.parentsOf(node)\<close>: the ancestors of a node, nearest first, up to the root.
  \<^verbatim>\<open>NodeUtils.parentUntil(node, ancestor)\<close>: the child of \<open>ancestor\<close> on the way down to
  \<open>node\<close>; nothing when \<open>ancestor\<close> is not an ancestor of \<open>node\<close>.
  \<^verbatim>\<open>NodeUtils.commonAncestor(a, b)\<close>: the nearest ancestor of \<open>a\<close> that is also an
  ancestor of \<open>b\<close>.
\<close>

definition parentsOf :: "path \<Rightarrow> path list" where
  "parentsOf p = map (\<lambda>k. take k p) (rev [0..<length p])"

definition parentUntil :: "path \<Rightarrow> path \<Rightarrow> path option" where
  "parentUntil node ancestor =
     (if ancestor \<in> set (parentsOf node) then Some (take (Suc (length ancestor)) node) else None)"

definition commonAncestor :: "path \<Rightarrow> path \<Rightarrow> path option" where
  "commonAncestor a b = find (\<lambda>q. q \<in> set (parentsOf b)) (parentsOf a)"

text \<open>
  \<^verbatim>\<open>NodeUtils.getSiblingBetween(a, b, includeA, includeB)\<close> for two children of one
  parent: the range of child indices from \<open>a\<close> to \<open>b\<close>, as a half-open interval.
\<close>

definition getSiblingBetween :: "path \<Rightarrow> path \<Rightarrow> bool \<Rightarrow> bool \<Rightarrow> nat \<times> nat" where
  "getSiblingBetween a b includeA includeB =
     ((if includeA then last a else Suc (last a)), (if includeB then Suc (last b) else last b))"

text \<open>
  \<^verbatim>\<open>NodeUtils.removeFromParent\<close> for the children \<open>lo..<hi\<close> of a parent,
  \<^verbatim>\<open>NodeUtils.append\<close> and \<^verbatim>\<open>NodeUtils.prepend\<close> of nodes to the children of a
  parent, and \<^verbatim>\<open>NodeUtils.replace\<close> of a node by a list of nodes.
  \<^verbatim>\<open>NodeUtils.insertBefore(target, nodes)\<close> and \<^verbatim>\<open>NodeUtils.insertAfter(target, nodes)\<close>
  are \<open>splice_at\<close> at the index of the target and at the index after it.
\<close>

definition removeRange :: "path \<Rightarrow> nat \<Rightarrow> nat \<Rightarrow> 'c SheetNode \<Rightarrow> 'c SheetNode" where
  "removeRange parent lo hi t =
     update_at parent (\<lambda>n. setChildren (take lo (children n) @ drop (max lo hi) (children n)) n) t"

definition appendTo :: "path \<Rightarrow> 'c SheetNode list \<Rightarrow> 'c SheetNode \<Rightarrow> 'c SheetNode" where
  "appendTo parent nodes t = update_at parent (\<lambda>n. setChildren (children n @ nodes) n) t"

definition prependTo :: "path \<Rightarrow> 'c SheetNode list \<Rightarrow> 'c SheetNode \<Rightarrow> 'c SheetNode" where
  "prependTo parent nodes t = update_at parent (\<lambda>n. setChildren (nodes @ children n) n) t"

definition replaceAt :: "path \<Rightarrow> 'c SheetNode list \<Rightarrow> 'c SheetNode \<Rightarrow> 'c SheetNode" where
  "replaceAt node nodes t =
     splice_at (butlast node) (last node) nodes
       (removeRange (butlast node) (last node) (Suc (last node)) t)"

text \<open>
  \<^verbatim>\<open>NodeUtils.traverseForward(start, false, callback)\<close> with a callback that stops at
  \<open>stop\<close>: the nodes visited are those from \<open>start\<close> to \<open>stop\<close> in document order.
\<close>

fun take_through :: "('a \<Rightarrow> bool) \<Rightarrow> 'a list \<Rightarrow> 'a list" where
  "take_through P [] = []"
| "take_through P (x # xs) = x # (if P x then [] else take_through P xs)"

definition traverseForward :: "'c SheetNode \<Rightarrow> path \<Rightarrow> path \<Rightarrow> path list" where
  "traverseForward t start stop =
     take_through (\<lambda>q. q = stop) (dropWhile (\<lambda>q. q \<noteq> start) (paths t))"

subsection \<open>Adding an underline\<close>

text \<open>
  \<^verbatim>\<open>__assertBeginAndEnd\<close>, lines 554 to 569: the first node is resolved through the
  first children of nested underlines until a chord is reached, the last node through
  the last children. An underline without children gives \<^verbatim>\<open>undefined\<close> as its first
  child, and the call \<^verbatim>\<open>isChord()\<close> on it fails.
\<close>

function beginIsChord :: "'c SheetNode \<Rightarrow> failure option" where
  "beginIsChord n =
     (if isChord n then None
      else if isUnderline n then
        (case children n of [] \<Rightarrow> Some TypeError | c # cs \<Rightarrow> beginIsChord c)
      else Some HeadNotChord)"
  by pat_completeness auto
termination
proof (relation "measure size")
  fix n :: "'c SheetNode" and c cs
  assume "children n = c # cs"
  then show "(c, n) \<in> measure size" by (cases n) simp
qed simp

function endIsChord :: "'c SheetNode \<Rightarrow> failure option" where
  "endIsChord n =
     (if isChord n then None
      else if isUnderline n then
        (if children n = [] then Some TypeError else endIsChord (last (children n)))
      else Some TailNotChord)"
  by pat_completeness auto
termination
proof (relation "measure size")
  fix n :: "'c SheetNode"
  assume "children n \<noteq> []"
  then have "last (children n) \<in> set (children n)" by simp
  then have "size (last (children n)) < Suc (size_list size (children n))"
    by (simp add: less_Suc_eq_le size_list_estimation')
  then show "(last (children n), n) \<in> measure size" by (cases n) simp
qed simp

declare beginIsChord.simps [simp del] endIsChord.simps [simp del]

definition assertBeginAndEnd :: "'c SheetNode list \<Rightarrow> failure option" where
  "assertBeginAndEnd nodes =
     (if nodes = [] then Some TypeError
      else case beginIsChord (hd nodes) of
             Some e \<Rightarrow> Some e
           | None \<Rightarrow> endIsChord (last nodes))"


definition parentOf :: "path \<Rightarrow> path option" where
  "parentOf p = (if p = [] then None else Some (butlast p))"

definition isAncestorOf :: "path option \<Rightarrow> path \<Rightarrow> bool" where
  "isAncestorOf a p = (case a of None \<Rightarrow> False | Some q \<Rightarrow> q \<in> set (parentsOf p))"

text \<open>Lines 293 to 317: both chords have the same parent.\<close>

definition addUnderline_sameLevel :: "'c SheetNode \<Rightarrow> path \<Rightarrow> path \<Rightarrow> failure + 'c SheetNode" where
  "addUnderline_sameLevel t startChordNode endChordNode =
     (let parent = butlast startChordNode;
          (lo, hi) = getSiblingBetween startChordNode endChordNode True True;
          betweenNodes = slice lo hi (childrenAt t parent)
      in if \<not> length betweenNodes \<ge> 2 then Inl BadBetweenCount
         else case assertBeginAndEnd betweenNodes of
             Some e \<Rightarrow> Inl e
           | None \<Rightarrow>
               let visited = traverseForward t startChordNode endChordNode;
                   hasChord = list_ex (hasType t Chord) visited;
                   hasPureChord = list_ex (hasType t ChordPure) visited
               in if hasChord \<and> hasPureChord then Inl MixedPurity
                  else
                    let underlineNode = createUnderlineNode hasPureChord;
                        t1 = splice_at parent lo [underlineNode] t;
                        t2 = removeRange parent (Suc lo) (Suc hi) t1;
                        t3 = appendTo (parent @ [lo]) betweenNodes t2
                    in Inr t3)"

text \<open>
  Lines 319 to 332: the start chord lies deeper, inside an underline that is a sibling of
  the end chord; that underline takes in the siblings up to the end chord.
\<close>

definition addUnderline_extendForward :: "'c SheetNode \<Rightarrow> path \<Rightarrow> path \<Rightarrow> failure + 'c SheetNode" where
  "addUnderline_extendForward t startChordNode endChordNode =
     (case (parentUntil startChordNode (butlast endChordNode), node_at t endChordNode) of
        (Some startUnderlineNode, Some e) \<Rightarrow>
          if startUnderlineNode = endChordNode then Inl BoundaryIsUnderline
          else if butlast startUnderlineNode \<noteq> butlast endChordNode then Inl NotSameLevel
          else if \<not> isChord e then Inl ExtendNeedsChord
          else
            let parent = butlast endChordNode;
                (lo, hi) = getSiblingBetween startUnderlineNode endChordNode False True;
                betweenNodes = slice lo hi (childrenAt t parent);
                t1 = removeRange parent lo hi t;
                t2 = appendTo startUnderlineNode betweenNodes t1
            in Inr t2
      | _ \<Rightarrow> Inl TypeError)"

text \<open>
  Lines 334 to 347: the end chord lies deeper; its underline takes in the siblings back
  to the start chord. Removing those siblings moves the underline down by their number.
\<close>

definition addUnderline_extendBackward :: "'c SheetNode \<Rightarrow> path \<Rightarrow> path \<Rightarrow> failure + 'c SheetNode" where
  "addUnderline_extendBackward t startChordNode endChordNode =
     (case (parentUntil endChordNode (butlast startChordNode), node_at t startChordNode) of
        (Some endUnderlineNode, Some c) \<Rightarrow>
          if endUnderlineNode = startChordNode then Inl BoundaryIsUnderline
          else if butlast endUnderlineNode \<noteq> butlast startChordNode then Inl NotSameLevel
          else if \<not> isChord c then Inl ExtendNeedsChord
          else
            let parent = butlast startChordNode;
                (lo, hi) = getSiblingBetween startChordNode endUnderlineNode True False;
                betweenNodes = slice lo hi (childrenAt t parent);
                t1 = removeRange parent lo hi t;
                endUnderlineNode' = parent @ [last endUnderlineNode - length betweenNodes];
                t2 = prependTo endUnderlineNode' betweenNodes t1
            in Inr t2
      | _ \<Rightarrow> Inl TypeError)"

text \<open>
  Lines 348 to 377: both chords lie inside underlines below their common ancestor; the
  two underlines and the nodes between them become one new underline.
\<close>

definition addUnderline_merge :: "'c SheetNode \<Rightarrow> path \<Rightarrow> path \<Rightarrow> failure + 'c SheetNode" where
  "addUnderline_merge t startChordNode endChordNode =
     (case commonAncestor startChordNode endChordNode of
        None \<Rightarrow> Inl TypeError
      | Some commonAncestorNode \<Rightarrow>
         (case (parentUntil startChordNode commonAncestorNode,
                parentUntil endChordNode commonAncestorNode) of
            (Some su0, Some eu0) \<Rightarrow>
              (case (node_at t su0, node_at t eu0) of
                 (Some sn0, Some en0) \<Rightarrow>
                   if \<not> (isUnderline sn0 \<and> isUnderline en0) then Inl MergeNeedsUnderline
                   else if su0 = eu0 then Inl MergeWithSelf
                   else if butlast su0 \<noteq> butlast eu0 then Inl NotSameLevel
                   else if ntype sn0 \<noteq> ntype en0 then Inl MergeTypeDiffers
                   else
                     let (startUnderlineNode, endUnderlineNode) =
                           (if last su0 > last eu0 then (eu0, su0) else (su0, eu0));
                         (lo, hi) = getSiblingBetween startUnderlineNode endUnderlineNode False False;
                         betweenNodes = slice lo hi (childrenAt t commonAncestorNode);
                         mergedNode0 = createUnderlineNode (hasType t UnderlinePure startUnderlineNode);
                         t1 = removeRange commonAncestorNode lo hi t;
                         mergedNode = setChildren (children mergedNode0
                                        @ childrenAt t startUnderlineNode
                                        @ betweenNodes
                                        @ childrenAt t endUnderlineNode) mergedNode0;
                         endIndex = last endUnderlineNode - length betweenNodes;
                         t2 = removeRange commonAncestorNode endIndex (Suc endIndex) t1;
                         t3 = replaceAt startUnderlineNode [mergedNode] t2
                     in Inr t3
               | _ \<Rightarrow> Inl TypeError)
          | _ \<Rightarrow> Inl TypeError))"

text \<open>\<^verbatim>\<open>addUnderlineForChord\<close>, lines 277 to 379.\<close>

definition addUnderlineForChord_body :: "path \<Rightarrow> 'c SheetNode \<Rightarrow> failure + 'c SheetNode" where
  "addUnderlineForChord_body chordNode t =
     (case node_at t chordNode of
        None \<Rightarrow> Inl TypeError
      | Some c \<Rightarrow>
          if \<not> isChord c then Inl NotAChord
          else
            let chordType = ntype c
            in case findNextNodeByType t chordNode chordType of
                 None \<Rightarrow> Inl NoNextChord
               | Some nextChordNode \<Rightarrow>
                   if parentOf chordNode = parentOf nextChordNode
                     then addUnderline_sameLevel t chordNode nextChordNode
                   else if isAncestorOf (parentOf nextChordNode) chordNode
                     then addUnderline_extendForward t chordNode nextChordNode
                   else if isAncestorOf (parentOf chordNode) nextChordNode
                     then addUnderline_extendBackward t chordNode nextChordNode
                   else addUnderline_merge t chordNode nextChordNode)"

definition addUnderlineForChord :: "path \<Rightarrow> ('c, 'k, unit) action" where
  "addUnderlineForChord chordNode = runAtomOperation (onRoot (addUnderlineForChord_body chordNode))"


subsection \<open>Removing an underline\<close>

text \<open>
  The anchors of an underline are its children that are chords or underlines (lines 420,
  436 and 456); \<^verbatim>\<open>anchorNodes.indexOf(node)\<close> is the number of anchors before the node
  when the node is an anchor, and -1 otherwise.
\<close>

definition isAnchor :: "'c SheetNode \<Rightarrow> bool" where
  "isAnchor n = (isChord n \<or> isUnderline n)"

definition anchorIndexOf :: "'c SheetNode list \<Rightarrow> nat \<Rightarrow> int" where
  "anchorIndexOf cs i =
     (if i < length cs \<and> isAnchor (cs ! i) then int (length (filter isAnchor (take i cs))) else - 1)"

text \<open>Lines 409 to 412: the underline is replaced by its children.\<close>

definition removeUnderline_dissolve :: "'c SheetNode \<Rightarrow> path \<Rightarrow> failure + 'c SheetNode" where
  "removeUnderline_dissolve t commonUnderlineNode =
     (if commonUnderlineNode = [] then Inl TypeError
      else Inr (replaceAt commonUnderlineNode (childrenAt t commonUnderlineNode) t))"

text \<open>Lines 413 to 427: the children after the start node move out, behind the underline.\<close>

definition removeUnderline_shrinkTail ::
  "'c SheetNode \<Rightarrow> path \<Rightarrow> path \<Rightarrow> failure + 'c SheetNode" where
  "removeUnderline_shrinkTail t commonUnderlineNode startNode =
     (let cs = childrenAt t commonUnderlineNode;
          anchorNodes = filter isAnchor cs;
          baseNodeIndex = anchorIndexOf cs (last startNode)
      in if butlast startNode \<noteq> commonUnderlineNode then Inl BaseNotInUnderline
         else if \<not> (hasType t Underline startNode \<or> hasType t UnderlinePure startNode
                     \<or> baseNodeIndex < int (length anchorNodes) - 1)
           then Inl ShrinkAtLastAnchor
         else
           let slicedNodes = slice (last startNode + 1) (length cs) cs;
               t1 = removeRange commonUnderlineNode (last startNode + 1) (length cs) t
           in if commonUnderlineNode = [] then Inl TypeError
              else Inr (splice_at (butlast commonUnderlineNode) (Suc (last commonUnderlineNode))
                          slicedNodes t1))"

text \<open>Lines 429 to 443: the children before the end node move out, in front of the underline.\<close>

definition removeUnderline_shrinkHead ::
  "'c SheetNode \<Rightarrow> path \<Rightarrow> path \<Rightarrow> failure + 'c SheetNode" where
  "removeUnderline_shrinkHead t commonUnderlineNode endNode =
     (let cs = childrenAt t commonUnderlineNode;
          baseNodeIndex = anchorIndexOf cs (last endNode)
      in if butlast endNode \<noteq> commonUnderlineNode then Inl BaseNotInUnderline
         else if \<not> (hasType t Chord endNode \<or> hasType t ChordPure endNode
                     \<or> hasType t Underline endNode \<or> hasType t UnderlinePure endNode)
           then Inl BaseNotAnchor
         else if \<not> (hasType t Underline endNode \<or> hasType t UnderlinePure endNode
                     \<or> baseNodeIndex > 0)
           then Inl ShrinkAtFirstAnchor
         else
           let slicedNodes = slice 0 (last endNode) cs;
               t1 = removeRange commonUnderlineNode 0 (last endNode) t
           in if commonUnderlineNode = [] then Inl TypeError
              else Inr (splice_at (butlast commonUnderlineNode) (last commonUnderlineNode)
                          slicedNodes t1))"

text \<open>
  Lines 444 to 475: the underline is split in two. The nodes between the start and the
  end node move in front of the old underline (out of its children), the two new
  underlines go around them, the old underline is removed, and its remaining children
  up to the start node and from the end node on are appended to the new underlines.
\<close>

definition removeUnderline_split ::
  "'c SheetNode \<Rightarrow> path \<Rightarrow> path \<Rightarrow> path \<Rightarrow> failure + 'c SheetNode" where
  "removeUnderline_split t commonUnderlineNode startNode0 endNode0 =
     (if \<not> (butlast startNode0 = commonUnderlineNode \<and> butlast endNode0 = commonUnderlineNode)
        then Inl BaseNotInUnderline
      else
        let (startNode, endNode) =
              (if last startNode0 > last endNode0 then (endNode0, startNode0)
               else (startNode0, endNode0));
            cs = childrenAt t commonUnderlineNode;
            anchorNodes = filter isAnchor cs;
            startNodeIndex = anchorIndexOf cs (last startNode);
            endNodeIndex = anchorIndexOf cs (last endNode)
        in if \<not> (hasType t Underline startNode \<or> hasType t UnderlinePure startNode
                    \<or> startNodeIndex > 0)
             then Inl SplitAtFirstAnchor
           else if \<not> (hasType t Underline endNode \<or> hasType t UnderlinePure endNode
                    \<or> endNodeIndex < int (length anchorNodes) - 1)
             then Inl SplitAtLastAnchor
           else if commonUnderlineNode = [] then Inl TypeError
           else
             let (lo, hi) = getSiblingBetween startNode endNode False False;
                 betweenNodes = slice lo hi cs;
                 isPure = hasType t UnderlinePure commonUnderlineNode;
                 leftUnderline = createUnderlineNode isPure;
                 rightUnderline = createUnderlineNode isPure;
                 parent = butlast commonUnderlineNode;
                 k = last commonUnderlineNode;
                 n = length betweenNodes;
                 t1 = splice_at parent k [leftUnderline] t;
                 t2 = splice_at parent (k + 1) betweenNodes (removeRange (parent @ [k + 1]) lo hi t1);
                 t3 = splice_at parent (k + 1 + n) [rightUnderline] t2;
                 rest = childrenAt t3 (parent @ [k + 2 + n]);
                 t4 = removeRange parent (k + 2 + n) (k + 3 + n) t3;
                 t5 = appendTo (parent @ [k]) (slice 0 (last startNode + 1) rest) t4;
                 t6 = appendTo (parent @ [k + 1 + n]) (slice (last endNode - n) (length rest) rest) t5
             in Inr t6)"

text \<open>\<^verbatim>\<open>removeUnderlineFromChordToNext\<close>, lines 384 to 477.\<close>

definition removeUnderlineFromChordToNext_body :: "path \<Rightarrow> 'c SheetNode \<Rightarrow> failure + 'c SheetNode" where
  "removeUnderlineFromChordToNext_body chordNode t =
     (case (node_at t chordNode, parentOf chordNode) of
        (Some c, Some chordParent) \<Rightarrow>
          if \<not> isChord c then Inl NotAChord
          else if \<not> (hasType t Underline chordParent \<or> hasType t UnderlinePure chordParent)
            then Inl NotInUnderline
          else if Suc (last chordNode) = length (childrenAt t chordParent) then Inl ChordIsLastChild
          else
            let chordType = ntype c
            in case findNextNodeByType t chordNode chordType of
                 None \<Rightarrow> Inl NoNextChord
               | Some nextChordNode \<Rightarrow>
                  (case commonAncestor chordNode nextChordNode of
                     None \<Rightarrow> Inl NoCommonUnderline
                   | Some commonUnderlineNode \<Rightarrow>
                       if \<not> (hasType t Underline commonUnderlineNode
                               \<or> hasType t UnderlinePure commonUnderlineNode)
                         then Inl NoCommonUnderline
                       else
                        (case (parentUntil chordNode commonUnderlineNode,
                               parentUntil nextChordNode commonUnderlineNode) of
                           (Some startNode, Some endNode) \<Rightarrow>
                             let isBegin = (last chordNode = 0);
                                 isEnd = (Suc (last nextChordNode)
                                            = length (childrenAt t (butlast nextChordNode)))
                             in if isBegin \<and> isEnd
                                  then removeUnderline_dissolve t commonUnderlineNode
                                else if \<not> isBegin \<and> isEnd
                                  then removeUnderline_shrinkTail t commonUnderlineNode startNode
                                else if isBegin \<and> \<not> isEnd
                                  then removeUnderline_shrinkHead t commonUnderlineNode endNode
                                else removeUnderline_split t commonUnderlineNode startNode endNode
                         | _ \<Rightarrow> Inl TypeError))
      | (Some c, None) \<Rightarrow> if \<not> isChord c then Inl NotAChord else Inl TypeError
      | _ \<Rightarrow> Inl TypeError)"

definition removeUnderlineFromChordToNext :: "path \<Rightarrow> ('c, 'k, unit) action" where
  "removeUnderlineFromChordToNext chordNode =
     runAtomOperation (onRoot (removeUnderlineFromChordToNext_body chordNode))"

section \<open>Notions used by the properties\<close>

text \<open>
  The document is the list of children of the root: a snapshot is restored by replacing
  the children of the live root object, which itself stays. A state is committed when the
  document equals the snapshot under the history's cursor.
\<close>

definition committed :: "('c, 'k) SheetEditorCore \<Rightarrow> bool" where
  "committed s = (children (getCurrent (history s)) = children (root s))"

text \<open>
  The actions that obey the coordinator's discipline: run while a frame is open (the
  counter is positive), the action hands back the counter and the history as it found
  them. The tree it may change at will, and it may throw after having done so. A tree
  edit is such an action, and so is every command that does its work inside
  \<^verbatim>\<open>runAtomOperation\<close>, nested frames included. An action that calls \<^verbatim>\<open>clearSheet\<close>,
  \<^verbatim>\<open>replaceSheet\<close>, \<^verbatim>\<open>undo\<close> or \<^verbatim>\<open>redo\<close> is not: these public methods write the
  history themselves, whether a frame is open or not.
\<close>

definition transactional :: "('c, 'k, 'a) action \<Rightarrow> bool" where
  "transactional f =
     (\<forall>s. 0 < count s \<longrightarrow> count (snd (f s)) = count s \<and> history (snd (f s)) = history s)"

text \<open>A sequence of transactions, each the outermost frame of its call chain.\<close>

fun run_all :: "('c, 'k, 'a) action list \<Rightarrow> ('c, 'k) SheetEditorCore \<Rightarrow> failure + ('c, 'k) SheetEditorCore" where
  "run_all [] s = Inr s"
| "run_all (f # fs) s =
     (case runAtomOperation f s of (Inl e, s') \<Rightarrow> Inl e | (Inr v, s') \<Rightarrow> run_all fs s')"

text \<open>The same command \<open>n\<close> times, stopping at the first failure.\<close>

fun repeated :: "nat \<Rightarrow> ('c, 'k, unit) action \<Rightarrow> ('c, 'k) SheetEditorCore \<Rightarrow> failure + ('c, 'k) SheetEditorCore" where
  "repeated 0 f s = Inr s"
| "repeated (Suc n) f s = (case f s of (Inl e, s') \<Rightarrow> Inl e | (Inr v, s') \<Rightarrow> repeated n f s')"

text \<open>
  The invariants of the document (spec section 3). I1, the anchor rule: every underline
  resolves through first children to a chord and through last children to a chord.
  I2, the purity rule: below an \<open>Underline\<close> there is no \<open>ChordPure\<close> node and below an
  \<open>UnderlinePure\<close> there is no \<open>Chord\<close> node.
\<close>

fun subnodes :: "'c SheetNode \<Rightarrow> 'c SheetNode list" where
  "subnodes (SheetNode ty co ch cs) = SheetNode ty co ch cs # concat (map subnodes cs)"

definition anchorRule :: "'c SheetNode \<Rightarrow> bool" where
  "anchorRule t =
     list_all (\<lambda>n. if isUnderline n then beginIsChord n = None \<and> endIsChord n = None else True)
       (subnodes t)"

definition purityRule :: "'c SheetNode \<Rightarrow> bool" where
  "purityRule t =
     list_all (\<lambda>n. if ntype n = Underline then \<not> list_ex (\<lambda>m. ntype m = ChordPure) (subnodes n)
                    else if ntype n = UnderlinePure then \<not> list_ex (\<lambda>m. ntype m = Chord) (subnodes n)
                    else True)
       (subnodes t)"

subsection \<open>Example states\<close>

text \<open>
  A sheet with one chord, the editor constructed on it, and a key shift where keys and
  chord data are integers, the offset is the difference of the keys and shifting adds it.
\<close>

definition sheet1 :: "int SheetNode" where
  "sheet1 = SheetNode Root [] None [SheetNode Chord ''a'' (Some 0) []]"

definition editor1 :: "(int, int) SheetEditorCore" where
  "editor1 = newSheetEditorCore 0 sheet1"

definition transpose :: "int \<Rightarrow> bool \<Rightarrow> (int, int, unit) action" where
  "transpose = setKey (=) (\<lambda>oldKey newKey. newKey - oldKey) (\<lambda>c offset. c + offset)"

text \<open>An action that empties the sheet and then calls a command that fails.\<close>

definition clear_then_fail :: "(int, int, unit) action" where
  "clear_then_fail s = insertAfter [] [] (s\<lparr>root := setChildren [] (root s)\<rparr>)"

text \<open>
  The empty sheet, and two actions that call \<^verbatim>\<open>clearSheet\<close>: one throws afterwards,
  the other returns.
\<close>

definition sheet_empty :: "int SheetNode" where
  "sheet_empty = SheetNode Root [] None []"

definition clear_then_throw :: "(int, int, unit) action" where
  "clear_then_throw s = (Inl (UserFailure 0), clearSheet s)"

definition clear_and_return :: "(int, int, unit) action" where
  "clear_and_return s = (Inr (), clearSheet s)"

text \<open>The history after a list of snapshots has been added, oldest first.\<close>

definition History_adds :: "'a list \<Rightarrow> 'a History \<Rightarrow> 'a History" where
  "History_adds xs h = foldl (\<lambda>h x. History_add x h) h xs"

text \<open>
  Two transactions that each insert a text node, the state they lead to from
  \<open>editor1\<close>, and the body of an \<^verbatim>\<open>insert\<close> command whose dialog is cancelled.
\<close>

definition two_inserts :: "(int, int, unit) action list" where
  "two_inserts = [onRoot (insertAfter_body [0] (createTextNodes ''x'')),
                  onRoot (insertAfter_body [1] (createTextNodes ''y''))]"

definition editor1_after_inserts :: "(int, int) SheetEditorCore" where
  "editor1_after_inserts =
     \<lparr>count = 0, sheetKey = 0,
      root = SheetNode Root [] None
        [SheetNode Chord ''a'' (Some 0) [], SheetNode Text ''x'' None [], SheetNode Text ''y'' None []],
      history =
        \<lparr>capacity = 100,
         older = [SheetNode Root [] None [SheetNode Chord ''a'' (Some 0) [], SheetNode Text ''x'' None []],
                  SheetNode Root [] None [SheetNode Chord ''a'' (Some 0) []]],
         current = SheetNode Root [] None
           [SheetNode Chord ''a'' (Some 0) [], SheetNode Text ''x'' None [], SheetNode Text ''y'' None []],
         newer = []\<rparr>\<rparr>"

definition cancelled_insert :: "(int, int, unit) action" where
  "cancelled_insert = insertNode_body None [0] ''text'' False"

text \<open>
  An underline over two annotated chords followed by a pure chord and an annotated chord,
  and the sheet in which the underline has taken in both.
\<close>

definition sheet2 :: "int SheetNode" where
  "sheet2 = SheetNode Root [] None
     [SheetNode Underline [] None [SheetNode Chord ''a'' (Some 1) [], SheetNode Chord ''b'' (Some 2) []],
      SheetNode ChordPure ''x'' (Some 3) [],
      SheetNode Chord ''c'' (Some 4) []]"

definition sheet2_mixed :: "int SheetNode" where
  "sheet2_mixed = SheetNode Root [] None
     [SheetNode Underline [] None
        [SheetNode Chord ''a'' (Some 1) [], SheetNode Chord ''b'' (Some 2) [],
         SheetNode ChordPure ''x'' (Some 3) [], SheetNode Chord ''c'' (Some 4) []]]"

text \<open>An underline over three chords, and the two ways of taking one chord out of it.\<close>

definition sheet3 :: "int SheetNode" where
  "sheet3 = SheetNode Root [] None
     [SheetNode Underline [] None
        [SheetNode Chord ''a'' (Some 1) [], SheetNode Chord ''b'' (Some 2) [],
         SheetNode Chord ''c'' (Some 3) []]]"

definition sheet3_head :: "int SheetNode" where
  "sheet3_head = SheetNode Root [] None
     [SheetNode Chord ''a'' (Some 1) [],
      SheetNode Underline [] None [SheetNode Chord ''b'' (Some 2) [], SheetNode Chord ''c'' (Some 3) []]]"

definition sheet3_tail :: "int SheetNode" where
  "sheet3_tail = SheetNode Root [] None
     [SheetNode Underline [] None [SheetNode Chord ''a'' (Some 1) [], SheetNode Chord ''b'' (Some 2) []],
      SheetNode Chord ''c'' (Some 3) []]"

text \<open>
  The flattened leaf contents of a tree: the contents of the text, chord, pure chord and
  mark nodes in document order. \<open>putChildren\<close> names the tree in which the node at a path
  has a given list of children. The last predicate says that only the root and the
  underlines have children, as in every tree that the editor builds: text, mark, newline
  and chord nodes are created without children and nothing is ever appended to them.
\<close>

fun leafContents :: "'c SheetNode \<Rightarrow> string" where
  "leafContents (SheetNode ty co ch cs) =
     (if ty = Text \<or> ty = Chord \<or> ty = ChordPure \<or> ty = Mark then co else [])
       @ concat (map leafContents cs)"

definition contentsOf :: "'c SheetNode list \<Rightarrow> string" where
  "contentsOf cs = concat (map leafContents cs)"

definition putChildren :: "path \<Rightarrow> 'c SheetNode list \<Rightarrow> 'c SheetNode \<Rightarrow> 'c SheetNode" where
  "putChildren p cs t = update_at p (setChildren cs) t"

definition onlyGroupsHaveChildren :: "'c SheetNode \<Rightarrow> bool" where
  "onlyGroupsHaveChildren t =
     list_all (\<lambda>n. ntype n = Root \<or> isUnderline n \<or> children n = []) (subnodes t)"

text \<open>
  A sheet with an underline over four chords with text in between, and the sheet after
  the underline has been split between its second and its third chord.
\<close>

definition sheet4 :: "int SheetNode" where
  "sheet4 = SheetNode Root [] None
     [SheetNode Text ''p'' None [],
      SheetNode Underline [] None
        [SheetNode Chord ''a'' (Some 1) [], SheetNode Text ''x'' None [],
         SheetNode Chord ''b'' (Some 2) [], SheetNode Text ''y'' None [],
         SheetNode Text ''z'' None [], SheetNode Chord ''c'' (Some 3) [],
         SheetNode Chord ''d'' (Some 4) []],
      SheetNode Text ''q'' None []]"

definition sheet4_split :: "int SheetNode" where
  "sheet4_split = SheetNode Root [] None
     [SheetNode Text ''p'' None [],
      SheetNode Underline [] None
        [SheetNode Chord ''a'' (Some 1) [], SheetNode Text ''x'' None [],
         SheetNode Chord ''b'' (Some 2) []],
      SheetNode Text ''y'' None [], SheetNode Text ''z'' None [],
      SheetNode Underline [] None
        [SheetNode Chord ''c'' (Some 3) [], SheetNode Chord ''d'' (Some 4) []],
      SheetNode Text ''q'' None []]"

text \<open>
  The shape of a node: its type and the number of its children. A write to a node's
  content keeps every shape.
\<close>

definition shapeOf :: "'c SheetNode \<Rightarrow> ENodeType \<times> nat" where
  "shapeOf n = (ntype n, length (children n))"

text \<open>
  Where \<^verbatim>\<open>insertAfter\<close> puts new nodes, in words: a node ends an underline when it is
  the last child of an underline, and the insertion point of a node is the nearest of
  the node and its ancestors, from the node upwards, that does not end an underline.
\<close>

definition endsUnderline :: "'c SheetNode \<Rightarrow> path \<Rightarrow> bool" where
  "endsUnderline t p =
     (p \<noteq> [] \<and>
      (case node_at t (butlast p) of
         None \<Rightarrow> False
       | Some parent \<Rightarrow> isUnderline parent \<and> Suc (last p) = length (children parent)))"

definition insertionPoint :: "'c SheetNode \<Rightarrow> path \<Rightarrow> path option" where
  "insertionPoint t p = find (\<lambda>q. \<not> endsUnderline t q) (p # parentsOf p)"

text \<open>
  \<open>sheet3\<close> after the content \<open>xy\<close> has been written to its third chord; and a sheet
  with an underline whose last child is an underline, before and after the content
  \<open>xyz\<close> has been written to the last chord of the inner underline.
\<close>

definition sheet3_written :: "int SheetNode" where
  "sheet3_written = SheetNode Root [] None
     [SheetNode Underline [] None
        [SheetNode Chord ''a'' (Some 1) [], SheetNode Chord ''b'' (Some 2) [],
         SheetNode Chord ''x'' (Some 3) []],
      SheetNode Text ''y'' None []]"

definition sheet5 :: "int SheetNode" where
  "sheet5 = SheetNode Root [] None
     [SheetNode Text ''p'' None [],
      SheetNode Underline [] None
        [SheetNode Chord ''a'' (Some 1) [],
         SheetNode Underline [] None
           [SheetNode Chord ''b'' (Some 2) [], SheetNode Chord ''c'' (Some 3) []]],
      SheetNode Text ''q'' None []]"

definition sheet5_written :: "int SheetNode" where
  "sheet5_written = SheetNode Root [] None
     [SheetNode Text ''p'' None [],
      SheetNode Underline [] None
        [SheetNode Chord ''a'' (Some 1) [],
         SheetNode Underline [] None
           [SheetNode Chord ''b'' (Some 2) [], SheetNode Chord ''x'' (Some 3) []]],
      SheetNode Text ''y'' None [], SheetNode Text ''z'' None [],
      SheetNode Text ''q'' None []]"


section \<open>Properties of the operation coordinator\<close>

lemma nested_run_raising:
  "0 \<le> count s \<Longrightarrow>
   nested_run d log_done log_failed (raising e) s =
     (Inl e, s\<lparr>events := events s @ replicate d Failed\<rparr>)"
proof (induction d arbitrary: s)
  case 0
  then show ?case by (simp add: raising_def)
next
  case (Suc d)
  have "0 \<le> count (beginOperation s)"
    using Suc.prems by (simp add: beginOperation_def)
  from Suc.IH [OF this] show ?case
    using Suc.prems
    by (simp add: run_def endOperation_def beginOperation_def log_failed_def Let_def
        replicate_append_same)
qed

text \<open>
  C5 (as amended). In a chain of \<open>d\<close> nested \<^verbatim>\<open>run\<close> calls whose innermost action
  throws \<open>e\<close>, every frame catches the failure, calls \<^verbatim>\<open>endOperation(true)\<close> and with
  it \<^verbatim>\<open>onFailed\<close>: the rollback callback runs \<open>d\<close> times, once per frame and first at
  the exit of the innermost frame, \<^verbatim>\<open>onDone\<close> never runs, the counter is back where it
  was, and the caller gets the original failure \<open>e\<close>.
\<close>

theorem onFailed_runs_at_every_frame:
  "0 \<le> count s \<Longrightarrow>
   fst (nested_run d log_done log_failed (raising e) s) = Inl e \<and>
   events (snd (nested_run d log_done log_failed (raising e) s)) = events s @ replicate d Failed \<and>
   count (snd (nested_run d log_done log_failed (raising e) s)) = count s"
  by (simp add: nested_run_raising)

theorem onFailed_runs_at_every_frame_witness:
  "(0::int) \<le> count \<lparr>count = 0, events = []\<rparr> \<and>
   fst (nested_run 3 log_done log_failed (raising (UserFailure 7)) \<lparr>count = 0, events = []\<rparr>)
     = Inl (UserFailure 7) \<and>
   events (snd (nested_run 3 log_done log_failed (raising (UserFailure 7)) \<lparr>count = 0, events = []\<rparr>))
     = [Failed, Failed, Failed]"
  using onFailed_runs_at_every_frame [of "\<lparr>count = 0, events = []\<rparr>" 3 "UserFailure 7"]
  by (simp add: numeral_3_eq_3)

text \<open>
  C5 as stated fails: with two nested frames the rollback callback has run twice when the
  outermost frame exits, and a frame that is not the outermost (it is entered with the
  counter at 1) has already run it once when it exits.
\<close>

theorem onFailed_runs_twice_for_two_frames:
  "count_list (events (snd (nested_run 2 log_done log_failed (raising (UserFailure 0))
      \<lparr>count = 0, events = []\<rparr>))) Failed = 2 \<and>
   count_list (events (snd (nested_run 2 log_done log_failed (raising (UserFailure 0))
      \<lparr>count = 0, events = []\<rparr>))) Failed \<noteq> 1 \<and>
   events (snd (run log_done log_failed (raising (UserFailure 0)) \<lparr>count = 1, events = []\<rparr>))
     = [Failed]"
  by (simp add: numeral_2_eq_2 run_def endOperation_def beginOperation_def log_failed_def
      raising_def Let_def)

section \<open>Properties of the undo bridge and of transactions\<close>

lemma transactionalD:
  "transactional f \<Longrightarrow> 0 < count s \<Longrightarrow> f s = (r, s') \<Longrightarrow>
   count s' = count s \<and> history s' = history s"
  unfolding transactional_def by (metis snd_conv)

lemma retoreNewestHistory_fields [simp]:
  "count (retoreNewestHistory s) = count s"
  "history (retoreNewestHistory s) = history s"
  "sheetKey (retoreNewestHistory s) = sheetKey s"
  "children (root (retoreNewestHistory s)) = children (getCurrent (history s))"
  by (simp_all add: retoreNewestHistory_def setFromHistory_def replaceSheet_internal_def Let_def
      clone_def setChildren_def)

lemma addHistory_fields [simp]:
  "count (addHistory s) = count s"
  "root (addHistory s) = root s"
  "sheetKey (addHistory s) = sheetKey s"
  "history (addHistory s) = History_add (root s) (history s)"
  by (simp_all add: addHistory_def getToHistory_def clone_def)

lemma History_add_fields [simp]:
  "capacity (History_add x h) = capacity h"
  "current (History_add x h) = x"
  "newer (History_add x h) = []"
  by (simp_all add: History_add_def Let_def)

text \<open>
  Replacing the sheet by a tree of its own installs that tree's children; replacing it
  by the live root itself leaves an empty document, since the children are gone before
  they are read.
\<close>

lemma replaceSheet_internal_OtherRoot:
  "children (root (replaceSheet_internal (OtherRoot r) cl s)) = children r"
  by (simp add: replaceSheet_internal_def Let_def clone_def setChildren_def)

lemma replaceSheet_internal_LiveRoot:
  "children (root (replaceSheet_internal LiveRoot cl s)) = []"
  by (simp add: replaceSheet_internal_def Let_def clone_def setChildren_def)

text \<open>What one frame does, given what its action did.\<close>

lemma runAtomOperation_frame:
  assumes "func (beginOperation s) = (r, s2)" and "count s2 = count s + 1" and "0 \<le> count s"
  shows "runAtomOperation func s =
     (r, if isl r then retoreNewestHistory (s2\<lparr>count := count s\<rparr>)
         else if count s = 0 then addHistory (s2\<lparr>count := count s\<rparr>)
         else s2\<lparr>count := count s\<rparr>)"
  using assms by (simp add: runAtomOperation_def run_def endOperation_def Let_def)

text \<open>Nested frames: a frame is itself an action that an enclosing frame can run.\<close>

lemma transactional_runAtomOperation: "transactional f \<Longrightarrow> transactional (runAtomOperation f)"
proof (unfold transactional_def, intro allI impI)
  fix s :: "('a, 'b) SheetEditorCore"
  assume tf: "\<forall>s. 0 < count s \<longrightarrow> count (snd (f s)) = count s \<and> history (snd (f s)) = history s"
    and pos: "0 < count s"
  obtain r s2 where f: "f (beginOperation s) = (r, s2)"
    by (cases "f (beginOperation s)")
  have "0 < count (beginOperation s)"
    using pos by (simp add: beginOperation_def)
  with tf have "count (snd (f (beginOperation s))) = count (beginOperation s) \<and>
     history (snd (f (beginOperation s))) = history (beginOperation s)"
    by blast
  with f have c2: "count s2 = count s + 1" and h2: "history s2 = history (beginOperation s)"
    by (simp_all add: beginOperation_def)
  show "count (snd (runAtomOperation f s)) = count s \<and>
        history (snd (runAtomOperation f s)) = history s"
    using runAtomOperation_frame [of f s r s2] f c2 pos h2 by (simp add: beginOperation_def)
qed

lemma transactional_onRoot: "transactional (onRoot g)"
  by (simp add: transactional_def onRoot_def split: sum.splits)

lemma transactional_insertAfter: "transactional (insertAfter node data)"
  unfolding insertAfter_def by (rule transactional_runAtomOperation [OF transactional_onRoot])

lemma transactional_insertBefore: "transactional (insertBefore node data)"
  unfolding insertBefore_def by (rule transactional_runAtomOperation [OF transactional_onRoot])

lemma transactional_clear_then_fail: "transactional clear_then_fail"
proof (unfold transactional_def, intro allI impI)
  fix s :: "(int, int) SheetEditorCore"
  assume pos: "0 < count s"
  obtain r s' where f: "insertAfter [] [] (s\<lparr>root := setChildren [] (root s)\<rparr>) = (r, s')"
    by (cases "insertAfter [] ([] :: int SheetNode list) (s\<lparr>root := setChildren [] (root s)\<rparr>)")
  have "0 < count (s\<lparr>root := setChildren [] (root s)\<rparr>)"
    using pos by simp
  from transactionalD [OF transactional_insertAfter this f]
  show "count (snd (clear_then_fail s)) = count s \<and> history (snd (clear_then_fail s)) = history s"
    using f by (simp add: clear_then_fail_def)
qed

text \<open>
  The commands of the editor obey the discipline, and so does one such action after
  another; an action that calls \<^verbatim>\<open>clearSheet\<close> does not.
\<close>

lemma transactional_changed_root:
  "transactional f \<Longrightarrow> transactional (\<lambda>s. f (s\<lparr>root := g s\<rparr>))"
  by (simp add: transactional_def)

lemma transactional_return: "transactional (\<lambda>s. (r, s\<lparr>root := g s\<rparr>))"
  by (simp add: transactional_def)

lemma transactional_updateContent_body: "transactional (updateContent_body node newContent)"
proof (unfold transactional_def, intro allI impI)
  fix s :: "('a, 'b) SheetEditorCore"
  assume pos: "0 < count s"
  let ?s1 = "s\<lparr>root := update_at node (setContent [hd newContent]) (root s)\<rparr>"
  have "0 < count ?s1" using pos by simp
  with transactional_insertAfter [of node "createTextNodes (tl newContent)"]
  have "count (snd (insertAfter node (createTextNodes (tl newContent)) ?s1)) = count s \<and>
        history (snd (insertAfter node (createTextNodes (tl newContent)) ?s1)) = history s"
    unfolding transactional_def by fastforce
  then show "count (snd (updateContent_body node newContent s)) = count s \<and>
        history (snd (updateContent_body node newContent s)) = history s"
    by (simp add: updateContent_body_def Let_def split: option.splits)
qed

lemma transactional_updateContent: "transactional (updateContent node newContent)"
  unfolding updateContent_def
  by (rule transactional_runAtomOperation [OF transactional_updateContent_body])

lemma transactional_insertNode_body: "transactional (insertNode_body answer node type placeBefore)"
proof (unfold transactional_def, intro allI impI)
  fix s :: "('a, 'b) SheetEditorCore"
  assume pos: "0 < count s"
  have a: "count (snd (insertAfter node ns s)) = count s \<and>
           history (snd (insertAfter node ns s)) = history s" for ns
    using transactional_insertAfter [of node ns] pos unfolding transactional_def by blast
  have b: "count (snd (insertBefore node ns s)) = count s \<and>
           history (snd (insertBefore node ns s)) = history s" for ns
    using transactional_insertBefore [of node ns] pos unfolding transactional_def by blast
  show "count (snd (insertNode_body answer node type placeBefore s)) = count s \<and>
        history (snd (insertNode_body answer node type placeBefore s)) = history s"
    using a b by (simp add: insertNode_body_def Let_def)
qed

lemma transactional_insertNode: "transactional (insertNode answer node type placeBefore)"
  unfolding insertNode_def
  by (rule transactional_runAtomOperation [OF transactional_insertNode_body])

lemma transactional_addUnderlineForChord: "transactional (addUnderlineForChord chordNode)"
  unfolding addUnderlineForChord_def
  by (rule transactional_runAtomOperation [OF transactional_onRoot])

lemma transactional_removeUnderlineFromChordToNext:
  "transactional (removeUnderlineFromChordToNext chordNode)"
  unfolding removeUnderlineFromChordToNext_def
  by (rule transactional_runAtomOperation [OF transactional_onRoot])

lemma transactional_setKey:
  "transactional (setKey isEqual getOffset shiftKey newKey shiftChord)"
  by (simp add: transactional_def setKey_def Let_def split: prod.splits option.splits)

text \<open>One action after another, the second one only when the first one returns.\<close>

lemma transactional_sequence:
  assumes "transactional f" and "\<And>v. transactional (g v)"
  shows "transactional (\<lambda>s. case f s of (Inl e, s1) \<Rightarrow> (Inl e, s1) | (Inr v, s1) \<Rightarrow> g v s1)"
proof (unfold transactional_def, intro allI impI)
  fix s :: "('a, 'b) SheetEditorCore"
  assume pos: "0 < count s"
  obtain r s1 where f: "f s = (r, s1)" by (cases "f s")
  from transactionalD [OF assms(1) pos f] have c1: "count s1 = count s" and h1: "history s1 = history s"
    by simp_all
  show "count (snd (case f s of (Inl e, s1) \<Rightarrow> (Inl e, s1) | (Inr v, s1) \<Rightarrow> g v s1)) = count s \<and>
        history (snd (case f s of (Inl e, s1) \<Rightarrow> (Inl e, s1) | (Inr v, s1) \<Rightarrow> g v s1)) = history s"
  proof (cases r)
    case (Inl e)
    then show ?thesis using f c1 h1 by simp
  next
    case (Inr v)
    obtain r2 s2 where g: "g v s1 = (r2, s2)" by (cases "g v s1")
    from pos c1 have "0 < count s1" by simp
    from transactionalD [OF assms(2) this g] show ?thesis using Inr f g c1 h1 by simp
  qed
qed

lemma clear_then_throw_not_transactional: "\<not> transactional clear_then_throw"
proof
  assume "transactional clear_then_throw"
  then have "history (snd (clear_then_throw (beginOperation editor1))) = history (beginOperation editor1)"
    unfolding transactional_def
    by (simp add: beginOperation_def editor1_def newSheetEditorCore_def)
  then show False
    by (simp add: clear_then_throw_def clearSheet_def addHistory_def getToHistory_def clone_def
        History_add_def Let_def beginOperation_def editor1_def newSheetEditorCore_def
        History_new_def MAX_UNDO_TIMES_def)
qed

text \<open>Every public way of changing the document but \<^verbatim>\<open>setKey\<close> leaves it committed.\<close>

lemma committed_new: "committed (newSheetEditorCore key r)"
  by (simp add: committed_def newSheetEditorCore_def History_new_def getCurrent_def clone_def)

lemma committed_addHistory: "committed (addHistory s)"
  by (simp add: committed_def getCurrent_def History_add_def Let_def)

lemma committed_clearSheet: "committed (clearSheet s)"
  by (simp add: clearSheet_def committed_addHistory)

lemma committed_replaceSheet: "committed (replaceSheet r cl clearHist s)"
  by (simp add: replaceSheet_def committed_addHistory Let_def clearHistory_def committed_def
      getCurrent_def History_clear_def getToHistory_def clone_def)

lemma committed_setFromHistory: "committed (setFromHistory (getCurrent (history s)) s)"
  by (simp add: committed_def setFromHistory_def replaceSheet_internal_def Let_def clone_def
      setChildren_def)

lemma committed_undo: "committed (snd (undo s)) \<or> isl (fst (undo s))"
  using committed_setFromHistory [of "s\<lparr>history := goPrev (history s)\<rparr>"]
  by (simp add: undo_def Let_def)

lemma committed_redo: "committed (snd (redo s)) \<or> isl (fst (redo s))"
  using committed_setFromHistory [of "s\<lparr>history := goNext (history s)\<rparr>"]
  by (simp add: redo_def Let_def)

lemma committed_runAtomOperation:
  assumes "transactional func" and "count s = 0"
  shows "committed (snd (runAtomOperation func s))"
proof -
  obtain r s2 where f: "func (beginOperation s) = (r, s2)"
    by (cases "func (beginOperation s)")
  have "0 < count (beginOperation s)"
    using assms(2) by (simp add: beginOperation_def)
  from transactionalD [OF assms(1) this f]
  have c2: "count s2 = count s + 1" and h2: "history s2 = history s"
    by (simp_all add: beginOperation_def)
  show ?thesis
    using runAtomOperation_frame [of func s r s2] f c2 assms(2) h2
    by (cases r) (simp_all add: committed_def getCurrent_def)
qed

text \<open>
  C1 (as amended). Let the outermost transaction (the counter is 0) run an action that
  obeys the coordinator's discipline: run inside an open frame, it leaves the counter and
  the history as it found them, nested frames included. If the action throws \<open>e\<close>, the
  caller gets \<open>e\<close>, the history is untouched, the counter is 0 again, and the document is
  the snapshot under the history's cursor, which is the document from before the
  transaction whenever the state was committed then. If the action returns \<open>v\<close>, the
  caller gets \<open>v\<close>, the tree is as the action left it, and exactly one snapshot, of that
  tree, was added.
\<close>

theorem failed_transaction_restores_document:
  assumes tf: "transactional func" and c0: "count s = 0"
  shows "(case runAtomOperation func s of
            (Inl e, s') \<Rightarrow>
               fst (func (beginOperation s)) = Inl e \<and>
               children (root s') = children (getCurrent (history s)) \<and>
               (committed s \<longrightarrow> children (root s') = children (root s)) \<and>
               history s' = history s \<and> count s' = 0
          | (Inr v, s') \<Rightarrow>
               fst (func (beginOperation s)) = Inr v \<and>
               root s' = root (snd (func (beginOperation s))) \<and>
               history s' = History_add (root s') (history s) \<and> count s' = 0)"
proof -
  obtain r s2 where f: "func (beginOperation s) = (r, s2)"
    by (cases "func (beginOperation s)")
  have "0 < count (beginOperation s)"
    using c0 by (simp add: beginOperation_def)
  from transactionalD [OF tf this f]
  have c2: "count s2 = count s + 1" and h2: "history s2 = history s"
    by (simp_all add: beginOperation_def)
  show ?thesis
    using runAtomOperation_frame [of func s r s2] f c2 c0 h2
    by (cases r) (simp_all add: committed_def)
qed

lemma clear_then_fail_editor1:
  "runAtomOperation clear_then_fail editor1 = (Inl TypeError, editor1)"
  by (simp add: clear_then_fail_def insertAfter_def insertAfter_body_def insertAfter_target.simps
      onRoot_def runAtomOperation_def run_def endOperation_def beginOperation_def Let_def
      retoreNewestHistory_def setFromHistory_def replaceSheet_internal_def clone_def
      setChildren_def getCurrent_def editor1_def newSheetEditorCore_def sheet1_def History_new_def)

theorem failed_transaction_restores_document_witness:
  "transactional clear_then_fail \<and> count editor1 = 0 \<and> committed editor1 \<and>
   fst (runAtomOperation clear_then_fail editor1) = Inl TypeError \<and>
   children (root (snd (runAtomOperation clear_then_fail editor1))) = children (root editor1) \<and>
   history (snd (runAtomOperation clear_then_fail editor1)) = history editor1"
proof -
  have c: "count editor1 = 0" and m: "committed editor1"
    by (simp_all add: editor1_def newSheetEditorCore_def committed_def getCurrent_def
        History_new_def clone_def)
  show ?thesis
    using failed_transaction_restores_document [OF transactional_clear_then_fail c]
      transactional_clear_then_fail c m
    by (simp add: clear_then_fail_editor1)
qed

text \<open>
  C1 as stated fails for an action that calls \<^verbatim>\<open>clearSheet\<close> (lines 173 to 176), which
  pushes a snapshot of the emptied document on its own. When the action throws
  afterwards, in the committed state of the freshly constructed editor, the rollback
  restores that snapshot: the document is empty, not the one from before the
  transaction, and the history has one more entry.
\<close>

theorem failed_transaction_after_clearSheet:
  "count editor1 = 0 \<and> committed editor1 \<and>
   fst (runAtomOperation clear_then_throw editor1) = Inl (UserFailure 0) \<and>
   children (root editor1) = [SheetNode Chord ''a'' (Some 0) []] \<and>
   children (root (snd (runAtomOperation clear_then_throw editor1))) = [] \<and>
   older (history editor1) = [] \<and>
   older (history (snd (runAtomOperation clear_then_throw editor1))) = [sheet1]"
  by (simp add: clear_then_throw_def clearSheet_def addHistory_def getToHistory_def
      runAtomOperation_def run_def endOperation_def beginOperation_def Let_def
      retoreNewestHistory_def setFromHistory_def replaceSheet_internal_def clone_def
      setChildren_def getCurrent_def committed_def History_add_def
      editor1_def newSheetEditorCore_def sheet1_def History_new_def MAX_UNDO_TIMES_def)

lemma transpose_editor1:
  "transpose 2 True editor1 =
     (Inr (), editor1\<lparr>sheetKey := 2,
                      root := SheetNode Root [] None [SheetNode Chord ''a'' (Some 2) []]\<rparr>)"
  by (simp add: transpose_def setKey_def editor1_def newSheetEditorCore_def sheet1_def Let_def
      isChord_def setChord_def setChildren_def)

text \<open>
  C6. \<^verbatim>\<open>setKey\<close> does not enter the coordinator: on the freshly constructed editor a
  shift to a new key with chord transposition returns normally and rewrites the chord
  data in the tree, and the history is the one from before, so no snapshot was pushed
  and there is nothing to undo.
\<close>

theorem setKey_pushes_no_snapshot:
  "fst (transpose 2 True editor1) = Inr () \<and>
   root (snd (transpose 2 True editor1)) = SheetNode Root [] None [SheetNode Chord ''a'' (Some 2) []] \<and>
   root (snd (transpose 2 True editor1)) \<noteq> root editor1 \<and>
   history (snd (transpose 2 True editor1)) = history editor1 \<and>
   \<not> canUndo (snd (transpose 2 True editor1))"
  unfolding transpose_editor1
  by (simp add: editor1_def newSheetEditorCore_def sheet1_def canUndo_def hasPrev_def
      History_new_def)

text \<open>
  C10 (as amended). When the text provider returns nothing (a cancelled dialog or the
  empty string) for the "text" or the "mark" variant, \<^verbatim>\<open>insert\<close> returns without
  throwing and the tree is the one from before. If no frame is open (the counter is 0),
  the frame of \<^verbatim>\<open>insert\<close> is the outermost one and commits: the history gets exactly
  one more snapshot, a copy of the unchanged tree, which has the same document as the
  snapshot before it when the state was committed. If a frame is open already, nothing
  is added to the history.
\<close>

theorem insert_without_text_keeps_tree:
  assumes "0 \<le> count s" and "noText answer" and "type = ''text'' \<or> type = ''mark''"
  shows "insertNode answer node type placeBefore s =
           (Inr (), if count s = 0 then s\<lparr>history := History_add (root s) (history s)\<rparr> else s) \<and>
         getCurrent (History_add (root s) (history s)) = root s \<and>
         older (History_add (root s) (history s)) =
           (if length (older (history s)) + 2 > capacity (history s)
            then butlast (getCurrent (history s) # older (history s))
            else getCurrent (history s) # older (history s)) \<and>
         (committed s \<longrightarrow>
            children (getCurrent (History_add (root s) (history s))) = children (getCurrent (history s)))"
proof -
  have b: "insertNode_body answer node type placeBefore (beginOperation s) = (Inr (), beginOperation s)"
    using assms by (auto simp: insertNode_body_def)
  have "insertNode answer node type placeBefore s =
           (Inr (), if count s = 0 then s\<lparr>history := History_add (root s) (history s)\<rparr> else s)"
    unfolding insertNode_def
    using runAtomOperation_frame [of "insertNode_body answer node type placeBefore" s "Inr ()" "beginOperation s"]
      b assms(1)
    by (simp add: beginOperation_def addHistory_def getToHistory_def clone_def)
  then show ?thesis
    by (simp add: committed_def History_add_def getCurrent_def Let_def)
qed

theorem insert_without_text_keeps_tree_witness:
  "0 \<le> count editor1 \<and> count editor1 = 0 \<and> committed editor1 \<and> noText None \<and>
   insertNode None [0] ''text'' False editor1 =
     (Inr (), editor1\<lparr>history := History_add sheet1 (history editor1)\<rparr>) \<and>
   older (History_add sheet1 (history editor1)) = [sheet1] \<and>
   getCurrent (History_add sheet1 (history editor1)) = sheet1"
proof -
  have c: "0 \<le> count editor1" and c0: "count editor1 = 0" and m: "committed editor1"
    and r: "root editor1 = sheet1"
    by (simp_all add: editor1_def newSheetEditorCore_def committed_def getCurrent_def
        History_new_def clone_def)
  have n: "noText None" by (simp add: noText_def)
  show ?thesis
    using insert_without_text_keeps_tree [OF c n, of "''text''" "[0]" False] c c0 m n r
    by (simp add: editor1_def newSheetEditorCore_def History_new_def getCurrent_def clone_def
        MAX_UNDO_TIMES_def)
qed

text \<open>
  C10 as stated fails while a frame is open: after \<^verbatim>\<open>runAtomOperationAsync\<close> on the
  freshly constructed editor the counter is 1, the cancelled \<^verbatim>\<open>insert\<close> returns
  normally, and the history is the one from before, with no snapshot to undo.
\<close>

theorem insert_without_text_in_open_frame:
  "runAtomOperationAsync editor1 = (\<lparr>disposed = False\<rparr>, editor1\<lparr>count := 1\<rparr>) \<and>
   insertNode None [0] ''text'' False (editor1\<lparr>count := 1\<rparr>) = (Inr (), editor1\<lparr>count := 1\<rparr>) \<and>
   history (editor1\<lparr>count := 1\<rparr>) = history editor1 \<and>
   \<not> canUndo (editor1\<lparr>count := 1\<rparr>)"
  by (simp add: runAtomOperationAsync_def runAsync_def insertNode_def insertNode_body_def noText_def
      runAtomOperation_def run_def endOperation_def beginOperation_def Let_def
      canUndo_def hasPrev_def
      editor1_def newSheetEditorCore_def sheet1_def History_new_def MAX_UNDO_TIMES_def)

section \<open>Undo and redo\<close>


lemma before_History_add:
  "older (History_add x h) =
     (if length (older h) + 2 > capacity h then butlast (current h # older h) else current h # older h)"
  by (simp add: History_add_def Let_def)

lemma History_adds_snoc: "History_adds (xs @ [x]) h = History_add x (History_adds xs h)"
  by (simp add: History_adds_def)

lemma History_adds_Cons: "History_adds (x # xs) h = History_adds xs (History_add x h)"
  by (simp add: History_adds_def)

lemma History_adds_keeps_recent:
  "length xs < capacity h \<Longrightarrow>
   capacity (History_adds xs h) = capacity h \<and>
   current (History_adds xs h) = last (current h # xs) \<and>
   take (length xs) (older (History_adds xs h)) = rev (butlast (current h # xs))"
proof (induction xs rule: rev_induct)
  case Nil
  then show ?case by (simp add: History_adds_def)
next
  case (snoc x xs)
  let ?h1 = "History_adds xs h"
  from snoc have ih: "capacity ?h1 = capacity h" "current ?h1 = last (current h # xs)"
      "take (length xs) (older ?h1) = rev (butlast (current h # xs))"
    by simp_all
  have len: "length xs \<le> length (older ?h1)"
  proof -
    have "length (take (length xs) (older ?h1)) = length xs" using ih(3) by simp
    then show ?thesis by simp
  qed
  have older: "take (Suc (length xs)) (current ?h1 # older ?h1) = rev (current h # xs)"
  proof -
    have "rev (current h # xs) = last (current h # xs) # rev (butlast (current h # xs))"
      by (metis append_butlast_last_id list.distinct(1) rev.simps(2) rev_append rev_rev_ident rev_singleton_conv append_Cons append_Nil)
    then show ?thesis using ih by simp
  qed
  have "take (Suc (length xs)) (older (History_add x ?h1)) = rev (current h # xs)"
  proof (cases "length (older ?h1) + 2 > capacity ?h1")
    case True
    then have "Suc (length xs) \<le> length (older ?h1)" using snoc.prems ih(1) by simp
    then have "take (Suc (length xs)) (butlast (current ?h1 # older ?h1)) =
               take (Suc (length xs)) (current ?h1 # older ?h1)"
      by (auto simp: take_butlast)
    then show ?thesis using True older by (simp add: before_History_add)
  next
    case False
    then show ?thesis using older by (simp add: before_History_add)
  qed
  then show ?case using ih by (simp add: History_adds_snoc butlast_append)
qed

lemma goPrev_funpow:
  "n \<le> length (older h) \<Longrightarrow>
   (goPrev ^^ n) h = h\<lparr>older := drop n (older h),
                        current := (current h # older h) ! n,
                        newer := rev (take n (current h # older h)) @ newer h\<rparr>"
proof (induction n arbitrary: h)
  case 0
  then show ?case by simp
next
  case (Suc n)
  then obtain x xs where b: "older h = x # xs" by (cases "older h") auto
  have g: "goPrev h = h\<lparr>older := xs, current := x, newer := current h # newer h\<rparr>"
    by (simp add: goPrev_def b)
  have "n \<le> length (older (goPrev h))" using Suc.prems b g by simp
  from Suc.IH [OF this] show ?case
    by (simp add: funpow_swap1 g b)
qed

lemma goNext_goPrev: "older h \<noteq> [] \<Longrightarrow> goNext (goPrev h) = h"
  by (cases "older h") (simp_all add: goNext_def goPrev_def)

lemma goNext_goPrev_funpow: "n \<le> length (older h) \<Longrightarrow> (goNext ^^ n) ((goPrev ^^ n) h) = h"
proof (induction n arbitrary: h)
  case 0
  then show ?case by simp
next
  case (Suc n)
  then have ne: "older h \<noteq> []" by auto
  then have "n \<le> length (older (goPrev h))" using Suc.prems
    by (cases "older h") (simp_all add: goPrev_def)
  from Suc.IH [OF this] show ?case
    by (simp add: funpow_swap1 goNext_goPrev [OF ne])
qed


lemma setFromHistory_fields [simp]:
  "count (setFromHistory x s) = count s"
  "history (setFromHistory x s) = history s"
  "sheetKey (setFromHistory x s) = sheetKey s"
  "children (root (setFromHistory x s)) = children x"
  by (simp_all add: setFromHistory_def replaceSheet_internal_def Let_def clone_def setChildren_def)

lemma repeated_undo:
  "n \<le> length (older (history s)) \<Longrightarrow>
   \<exists>su. repeated n undo s = Inr su \<and> history su = (goPrev ^^ n) (history s) \<and>
        count su = count s \<and>
        children (root su) = (if n = 0 then children (root s) else children (current (history su)))"
proof (induction n arbitrary: s)
  case 0
  then show ?case by simp
next
  case (Suc n)
  let ?s1 = "setFromHistory (getCurrent (goPrev (history s))) (s\<lparr>history := goPrev (history s)\<rparr>)"
  from Suc.prems have ne: "older (history s) \<noteq> []" by auto
  then have u: "undo s = (Inr (), ?s1)"
    by (simp add: undo_def canUndo_def hasPrev_def Let_def)
  have "n \<le> length (older (history ?s1))"
    using Suc.prems ne by (cases "older (history s)") (simp_all add: goPrev_def)
  from Suc.IH [OF this] obtain su where su: "repeated n undo ?s1 = Inr su"
    "history su = (goPrev ^^ n) (history ?s1)" "count su = count ?s1"
    "children (root su) = (if n = 0 then children (root ?s1) else children (current (history su)))"
    by blast
  have "children (root su) = children (current (history su))"
    using su(2,4) by (cases "n = 0") (simp_all add: getCurrent_def)
  then show ?case using su u by (simp add: funpow_swap1)
qed

lemma repeated_redo:
  "n \<le> length (newer (history s)) \<Longrightarrow>
   \<exists>sr. repeated n redo s = Inr sr \<and> history sr = (goNext ^^ n) (history s) \<and>
        count sr = count s \<and>
        children (root sr) = (if n = 0 then children (root s) else children (current (history sr)))"
proof (induction n arbitrary: s)
  case 0
  then show ?case by simp
next
  case (Suc n)
  let ?s1 = "setFromHistory (getCurrent (goNext (history s))) (s\<lparr>history := goNext (history s)\<rparr>)"
  from Suc.prems have ne: "newer (history s) \<noteq> []" by auto
  then have u: "redo s = (Inr (), ?s1)"
    by (simp add: redo_def canRedo_def hasNext_def Let_def)
  have "n \<le> length (newer (history ?s1))"
    using Suc.prems ne by (cases "newer (history s)") (simp_all add: goNext_def)
  from Suc.IH [OF this] obtain sr where sr: "repeated n redo ?s1 = Inr sr"
    "history sr = (goNext ^^ n) (history ?s1)" "count sr = count ?s1"
    "children (root sr) = (if n = 0 then children (root ?s1) else children (current (history sr)))"
    by blast
  have "children (root sr) = children (current (history sr))"
    using sr(2,4) by (cases "n = 0") (simp_all add: getCurrent_def)
  then show ?case using sr u by (simp add: funpow_swap1)
qed

lemma repeated_undo_fails:
  "length (older (history s)) < n \<Longrightarrow> repeated n undo s = Inl NoHistoryForUndo"
proof (induction n arbitrary: s)
  case 0
  then show ?case by simp
next
  case (Suc n)
  show ?case
  proof (cases "older (history s)")
    case Nil
    then show ?thesis by (simp add: undo_def canUndo_def hasPrev_def)
  next
    case (Cons x xs)
    let ?s1 = "setFromHistory (getCurrent (goPrev (history s))) (s\<lparr>history := goPrev (history s)\<rparr>)"
    have u: "undo s = (Inr (), ?s1)"
      using Cons by (simp add: undo_def canUndo_def hasPrev_def Let_def)
    have "length (older (history ?s1)) < n"
      using Suc.prems Cons by (simp add: goPrev_def)
    from Suc.IH [OF this] show ?thesis using u by simp
  qed
qed

lemma outermost_success:
  assumes "transactional f" and "count s = 0" and "runAtomOperation f s = (Inr v, s')"
  shows "count s' = 0 \<and> history s' = History_add (root s') (history s)"
proof -
  obtain r s2 where f: "f (beginOperation s) = (r, s2)"
    by (cases "f (beginOperation s)")
  have "0 < count (beginOperation s)"
    using assms(2) by (simp add: beginOperation_def)
  from transactionalD [OF assms(1) this f]
  have c2: "count s2 = count s + 1" and h2: "history s2 = history s"
    by (simp_all add: beginOperation_def)
  show ?thesis
    using runAtomOperation_frame [of f s r s2] f c2 assms(2,3) h2
    by (cases r) auto
qed

lemma run_all_history:
  "\<forall>f\<in>set fs. transactional f \<Longrightarrow> count s = 0 \<Longrightarrow> run_all fs s = Inr s' \<Longrightarrow>
   \<exists>rs. length rs = length fs \<and> history s' = History_adds rs (history s) \<and>
        count s' = 0 \<and> root s' = last (root s # rs)"
proof (induction fs arbitrary: s)
  case Nil
  then show ?case by (simp add: History_adds_def)
next
  case (Cons f fs)
  from Cons.prems(3) obtain v s1 where r: "runAtomOperation f s = (Inr v, s1)"
    and rest: "run_all fs s1 = Inr s'"
    by (auto split: prod.splits sum.splits)
  from Cons.prems(1) have tf: "transactional f" and tfs: "\<forall>f\<in>set fs. transactional f"
    by simp_all
  from outermost_success [OF tf Cons.prems(2) r]
  have c1: "count s1 = 0" and h1: "history s1 = History_add (root s1) (history s)"
    by simp_all
  from Cons.IH [OF tfs c1 rest] obtain rs where rs: "length rs = length fs"
    "history s' = History_adds rs (history s1)" "count s' = 0" "root s' = last (root s1 # rs)"
    by blast
  show ?case
    by (rule exI [of _ "root s1 # rs"]) (use rs h1 in \<open>simp add: History_adds_Cons\<close>)
qed

text \<open>
  C3 (as amended). Start in a committed state with no frame open and let \<open>N\<close>
  transactions complete whose actions obey the coordinator's discipline (run inside an
  open frame, they leave the counter and the history as they found them), where \<open>N\<close> is
  smaller than the capacity of the history. Then \<open>N\<close> undos all succeed and leave the
  document of the state before the sequence, and \<open>N\<close> redos after them all succeed and
  leave the document of the state after it.
\<close>

theorem undo_redo_within_capacity:
  assumes tf: "\<forall>f\<in>set fs. transactional f" and c0: "count s = 0" and cm: "committed s"
    and run: "run_all fs s = Inr s'" and cap: "length fs < capacity (history s)"
  shows "\<exists>su sr. repeated (length fs) undo s' = Inr su \<and> children (root su) = children (root s) \<and>
           repeated (length fs) redo su = Inr sr \<and> children (root sr) = children (root s')"
proof (cases "fs = []")
  case True
  then show ?thesis using run by simp
next
  case False
  from run_all_history [OF tf c0 run] obtain rs where rs: "length rs = length fs"
    "history s' = History_adds rs (history s)" "root s' = last (root s # rs)"
    by blast
  let ?n = "length fs" and ?h = "history s" and ?h' = "history s'"
  have ne: "rs \<noteq> []" using False rs(1) by auto
  have n0: "?n \<noteq> 0" using False by simp
  from History_adds_keeps_recent [of rs ?h] cap rs
  have cur: "current ?h' = last rs"
    and tk: "take ?n (older ?h') = rev (butlast (current ?h # rs))"
    using ne by simp_all
  have len: "?n \<le> length (older ?h')"
  proof -
    have "length (take ?n (older ?h')) = ?n" using tk rs(1) ne n0 by simp
    then show ?thesis by simp
  qed
  from repeated_undo [OF len] obtain su where su: "repeated ?n undo s' = Inr su"
    "history su = (goPrev ^^ ?n) ?h'" "children (root su) = children (current (history su))"
    using n0 by auto
  have hsu: "history su = ?h'\<lparr>older := drop ?n (older ?h'),
                        current := (current ?h' # older ?h') ! ?n,
                        newer := rev (take ?n (current ?h' # older ?h')) @ newer ?h'\<rparr>"
    using su(2) goPrev_funpow [OF len] by simp
  have "(current ?h' # older ?h') ! ?n = older ?h' ! (?n - 1)"
    using n0 by (cases ?n) simp_all
  also have "\<dots> = take ?n (older ?h') ! (?n - 1)"
    using n0 by simp
  also have "\<dots> = rev (butlast (current ?h # rs)) ! (?n - 1)"
    by (simp only: tk)
  also have "\<dots> = (rev (butlast rs) @ [current ?h]) ! length (rev (butlast rs))"
    using ne rs(1) by simp
  also have "\<dots> = current ?h"
    by (simp only: nth_append_length)
  finally have "current (history su) = current ?h"
    using hsu by simp
  then have undone: "children (root su) = children (root s)"
    using su(3) cm by (simp add: committed_def getCurrent_def)
  have "?n \<le> length (newer (history su))"
    using hsu len by simp
  from repeated_redo [OF this] obtain sr where sr: "repeated ?n redo su = Inr sr"
    "history sr = (goNext ^^ ?n) (history su)" "children (root sr) = children (current (history sr))"
    using n0 by auto
  have "history sr = ?h'"
    using sr(2) su(2) goNext_goPrev_funpow [OF len] by simp
  then have "children (root sr) = children (root s')"
    using sr(3) cur rs(3) ne by simp
  with su(1) undone sr(1) show ?thesis by blast
qed

text \<open>
  C3 as stated fails for a transaction whose action calls \<^verbatim>\<open>clearSheet\<close>: the call
  pushes a snapshot of the emptied document and the frame pushes a second one when it
  ends. After this one completed transaction on the freshly constructed editor, one undo
  leaves the empty document, not the document from before the transaction.
\<close>

theorem undo_after_clearSheet_transaction:
  "count editor1 = 0 \<and> committed editor1 \<and>
   run_all [clear_and_return] editor1 =
     Inr (editor1\<lparr>root := sheet_empty,
           history := \<lparr>capacity = 100, older = [sheet_empty, sheet1], current = sheet_empty, newer = []\<rparr>\<rparr>) \<and>
   repeated 1 undo
     (editor1\<lparr>root := sheet_empty,
           history := \<lparr>capacity = 100, older = [sheet_empty, sheet1], current = sheet_empty, newer = []\<rparr>\<rparr>)
     = Inr (editor1\<lparr>root := sheet_empty,
           history := \<lparr>capacity = 100, older = [sheet1], current = sheet_empty, newer = [sheet_empty]\<rparr>\<rparr>) \<and>
   children sheet_empty \<noteq> children (root editor1)"
  by (simp add: clear_and_return_def clearSheet_def addHistory_def getToHistory_def
      runAtomOperation_def run_def endOperation_def beginOperation_def Let_def
      undo_def canUndo_def hasPrev_def goPrev_def
      setFromHistory_def replaceSheet_internal_def clone_def
      setChildren_def getCurrent_def committed_def History_add_def sheet_empty_def
      editor1_def newSheetEditorCore_def sheet1_def History_new_def MAX_UNDO_TIMES_def)

lemma runAtomOperation_cancelled_insert:
  "count s = 0 \<Longrightarrow>
   runAtomOperation cancelled_insert s = (Inr (), s\<lparr>history := History_add (root s) (history s)\<rparr>)"
  using runAtomOperation_frame [of cancelled_insert s "Inr ()" "beginOperation s"]
  by (simp add: cancelled_insert_def insertNode_body_def noText_def beginOperation_def
      addHistory_def getToHistory_def clone_def)

lemma run_all_cancelled_insert:
  "count s = 0 \<Longrightarrow>
   run_all (replicate n cancelled_insert) s =
     Inr (s\<lparr>history := ((History_add (root s)) ^^ n) (history s)\<rparr>)"
proof (induction n arbitrary: s)
  case 0
  then show ?case by simp
next
  case (Suc n)
  let ?s1 = "s\<lparr>history := History_add (root s) (history s)\<rparr>"
  have "count ?s1 = 0" using Suc.prems by simp
  from Suc.IH [OF this] show ?case
    using runAtomOperation_cancelled_insert [OF Suc.prems] by (simp add: funpow_swap1)
qed

lemma History_add_funpow_new:
  "((History_add r) ^^ n) (History_new (Suc c) r) =
     \<lparr>capacity = Suc c, older = replicate (min n c) r, current = r, newer = []\<rparr>"
proof (induction n)
  case 0
  then show ?case by (simp add: History_new_def)
next
  case (Suc n)
  let ?h = "\<lparr>capacity = Suc c, older = replicate (min n c) r, current = r, newer = []\<rparr>"
  have step: "((History_add r) ^^ Suc n) (History_new (Suc c) r) = History_add r ?h"
    using Suc by simp
  have bl: "butlast (r # replicate c r) = replicate c r"
    by (metis butlast_snoc replicate_Suc replicate_append_same)
  have "History_add r ?h =
     \<lparr>capacity = Suc c, older = replicate (min (Suc n) c) r, current = r, newer = []\<rparr>"
  proof (cases "n < c")
    case True
    then show ?thesis by (simp add: History_add_def Let_def min_def)
  next
    case False
    then show ?thesis using bl by (auto simp add: History_add_def Let_def min_def split: if_splits)
  qed
  with step show ?case by simp
qed

text \<open>
  The bound on \<open>N\<close> is needed as well. \<^verbatim>\<open>MAX_UNDO_TIMES\<close> is 100: after 100 completed
  transactions on the freshly constructed editor (here 100 cancelled inserts, each of
  which commits) this history has evicted its oldest entry and holds 99 entries before
  the cursor, so the hundredth undo fails its assertion.
\<close>

theorem undo_fails_after_capacity_transactions:
  "count editor1 = 0 \<and> committed editor1 \<and>
   run_all (replicate 100 cancelled_insert) editor1 =
     Inr (editor1\<lparr>history := \<lparr>capacity = 100, older = replicate 99 sheet1, current = sheet1, newer = []\<rparr>\<rparr>) \<and>
   repeated 100 undo
     (editor1\<lparr>history := \<lparr>capacity = 100, older = replicate 99 sheet1, current = sheet1, newer = []\<rparr>\<rparr>)
     = Inl NoHistoryForUndo"
proof -
  have c: "count editor1 = 0" and m: "committed editor1" and r: "root editor1 = sheet1"
    and h: "history editor1 = History_new (Suc 99) sheet1"
    by (simp_all add: editor1_def newSheetEditorCore_def committed_def getCurrent_def
        History_new_def clone_def MAX_UNDO_TIMES_def)
  have "run_all (replicate 100 cancelled_insert) editor1 =
     Inr (editor1\<lparr>history := \<lparr>capacity = 100, older = replicate 99 sheet1, current = sheet1, newer = []\<rparr>\<rparr>)"
    using run_all_cancelled_insert [OF c, of 100] History_add_funpow_new [where r = sheet1 and n = 100 and c = 99]
    by (simp add: r h)
  moreover have "repeated 100 undo
     (editor1\<lparr>history := \<lparr>capacity = 100, older = replicate 99 sheet1, current = sheet1, newer = []\<rparr>\<rparr>)
     = Inl NoHistoryForUndo"
    by (rule repeated_undo_fails) simp
  ultimately show ?thesis using c m by simp
qed


lemma run_all_two_inserts: "run_all two_inserts editor1 = Inr editor1_after_inserts"
  by (simp add: two_inserts_def editor1_def editor1_after_inserts_def sheet1_def
      newSheetEditorCore_def History_new_def MAX_UNDO_TIMES_def clone_def
      runAtomOperation_def run_def endOperation_def beginOperation_def Let_def
      onRoot_def insertAfter_body_def insertAfter_target.simps splice_at_def
      createTextNodes_def createTextNode_def setChildren_def isUnderline_def
      addHistory_def getToHistory_def History_add_def)

theorem undo_redo_within_capacity_witness:
  "run_all two_inserts editor1 = Inr editor1_after_inserts \<and>
   children (root editor1) = [SheetNode Chord ''a'' (Some 0) []] \<and>
   (\<exists>su sr. repeated 2 undo editor1_after_inserts = Inr su \<and>
      children (root su) = children (root editor1) \<and>
      repeated 2 redo su = Inr sr \<and>
      children (root sr) = children (root editor1_after_inserts))"
proof -
  have t: "\<forall>f\<in>set two_inserts. transactional f"
    by (simp add: two_inserts_def transactional_onRoot)
  have c: "count editor1 = 0" and m: "committed editor1"
    and k: "length two_inserts < capacity (history editor1)"
    by (simp_all add: editor1_def newSheetEditorCore_def committed_def getCurrent_def
        History_new_def clone_def MAX_UNDO_TIMES_def two_inserts_def)
  have l: "length two_inserts = 2" by (simp add: two_inserts_def)
  show ?thesis
    using undo_redo_within_capacity [OF t c m run_all_two_inserts k] run_all_two_inserts
    by (simp add: l editor1_def newSheetEditorCore_def sheet1_def)
qed

section \<open>Properties of the underline algorithms\<close>

lemmas underline_eval =
  addUnderlineForChord_body_def addUnderline_sameLevel_def addUnderline_extendForward_def
  addUnderline_extendBackward_def addUnderline_merge_def
  removeUnderlineFromChordToNext_body_def removeUnderline_dissolve_def removeUnderline_shrinkTail_def
  removeUnderline_shrinkHead_def removeUnderline_split_def
  findNextNodeByType_def hasType_def parentOf_def isAncestorOf_def parentsOf_def parentUntil_def
  commonAncestor_def getSiblingBetween_def slice_def childrenAt_def removeRange_def appendTo_def
  prependTo_def replaceAt_def splice_at_def traverseForward_def assertBeginAndEnd_def
  beginIsChord.simps endIsChord.simps isChord_def isUnderline_def isAnchor_def anchorIndexOf_def
  createUnderlineNode_def setChildren_def Let_def

text \<open>A command whose body works on the tree alone and succeeds.\<close>

lemma runAtomOperation_onRoot:
  assumes "0 \<le> count s" and "f (root s) = Inr r"
  shows "runAtomOperation (onRoot f) s =
           (Inr (), if count s = 0 then addHistory (s\<lparr>root := r\<rparr>) else s\<lparr>root := r\<rparr>)"
  using runAtomOperation_frame [of "onRoot f" s "Inr ()" "beginOperation s\<lparr>root := r\<rparr>"] assms
  by (simp add: onRoot_def beginOperation_def)

lemma addUnderline_three_chords:
  assumes "ty = Chord \<or> ty = ChordPure"
  shows "addUnderlineForChord_body [0]
           (SheetNode rt rc rh [SheetNode ty a x [], SheetNode ty b y [], SheetNode ty c z []]) =
         Inr (SheetNode rt rc rh
           [SheetNode (if ty = ChordPure then UnderlinePure else Underline) [] None
              [SheetNode ty a x [], SheetNode ty b y []],
            SheetNode ty c z []])"
  using assms by (auto simp: underline_eval)

text \<open>
  C7. When the children of the root are exactly three chords of one purity (leaves, with
  any contents and chord data), \<^verbatim>\<open>addUnderlineForChord\<close> on the first one succeeds and
  the children of the root become a new underline holding the first two chords, followed
  by the third chord; the underline is pure exactly when the chords are.
\<close>

theorem addUnderline_first_of_three_siblings:
  assumes "ty = Chord \<or> ty = ChordPure" and "0 \<le> count s"
    and "root s = SheetNode rt rc rh [SheetNode ty a x [], SheetNode ty b y [], SheetNode ty c z []]"
  shows "fst (addUnderlineForChord [0] s) = Inr () \<and>
         children (root (snd (addUnderlineForChord [0] s))) =
           [SheetNode (if ty = ChordPure then UnderlinePure else Underline) [] None
              [SheetNode ty a x [], SheetNode ty b y []],
            SheetNode ty c z []]"
  unfolding addUnderlineForChord_def
  using runAtomOperation_onRoot [of s "addUnderlineForChord_body [0]", OF assms(2)]
    addUnderline_three_chords [OF assms(1), of rt rc rh a x b y c z] assms(3)
  by simp

theorem addUnderline_first_of_three_siblings_witness:
  "fst (addUnderlineForChord [0] (newSheetEditorCore (0::int)
      (SheetNode Root [] None [SheetNode ChordPure ''a'' (Some (1::int)) [],
         SheetNode ChordPure ''b'' (Some 2) [], SheetNode ChordPure ''c'' (Some 3) []]))) = Inr () \<and>
   children (root (snd (addUnderlineForChord [0] (newSheetEditorCore (0::int)
      (SheetNode Root [] None [SheetNode ChordPure ''a'' (Some (1::int)) [],
         SheetNode ChordPure ''b'' (Some 2) [], SheetNode ChordPure ''c'' (Some 3) []]))))) =
     [SheetNode UnderlinePure [] None
        [SheetNode ChordPure ''a'' (Some 1) [], SheetNode ChordPure ''b'' (Some 2) []],
      SheetNode ChordPure ''c'' (Some 3) []]"
  using addUnderline_first_of_three_siblings [of ChordPure
      "newSheetEditorCore (0::int) (SheetNode Root [] None [SheetNode ChordPure ''a'' (Some (1::int)) [],
         SheetNode ChordPure ''b'' (Some 2) [], SheetNode ChordPure ''c'' (Some 3) []])"
      Root "[]" None "''a''" "Some 1" "''b''" "Some 2" "''c''" "Some 3"]
  by (simp add: newSheetEditorCore_def)

text \<open>
  C2. The invariants are not kept by \<^verbatim>\<open>addUnderlineForChord\<close>. The sheet \<open>sheet2\<close>
  satisfies I1 and I2. Adding an underline at its second annotated chord finds the next
  annotated chord behind the pure chord, on the level of the underline; the branch that
  extends the underline forward (lines 319 to 332) checks no purity, succeeds, and leaves
  an \<open>Underline\<close> that holds a \<open>ChordPure\<close> node.
\<close>

theorem addUnderline_extend_mixes_purity:
  "anchorRule sheet2 \<and> purityRule sheet2 \<and>
   addUnderlineForChord [0, 1] (newSheetEditorCore (0::int) sheet2) =
     (Inr (), addHistory ((newSheetEditorCore 0 sheet2)\<lparr>root := sheet2_mixed\<rparr>)) \<and>
   \<not> purityRule sheet2_mixed"
proof -
  have a: "anchorRule sheet2"
    by (simp add: anchorRule_def sheet2_def beginIsChord.simps endIsChord.simps isChord_def
        isUnderline_def)
  have p: "purityRule sheet2" and np: "\<not> purityRule sheet2_mixed"
    by (simp_all add: purityRule_def sheet2_def sheet2_mixed_def)
  have b: "addUnderlineForChord_body [0, 1] sheet2 = Inr sheet2_mixed"
    by (simp add: sheet2_def sheet2_mixed_def underline_eval)
  have "addUnderlineForChord [0, 1] (newSheetEditorCore (0::int) sheet2) =
     (Inr (), addHistory ((newSheetEditorCore 0 sheet2)\<lparr>root := sheet2_mixed\<rparr>))"
    unfolding addUnderlineForChord_def
    using runAtomOperation_onRoot [of "newSheetEditorCore (0::int) sheet2"
        "addUnderlineForChord_body [0, 1]" sheet2_mixed] b
    by (simp add: newSheetEditorCore_def)
  with a p np show ?thesis by simp
qed

section \<open>Leaf contents under the underline commands\<close>

lemma setChildren_sel [simp]:
  "ntype (setChildren cs n) = ntype n" "content (setChildren cs n) = content n"
  "chord (setChildren cs n) = chord n" "children (setChildren cs n) = cs"
  by (simp_all add: setChildren_def)

lemma setChildren_setChildren [simp]: "setChildren cs (setChildren ds n) = setChildren cs n"
  by (simp add: setChildren_def)

lemma setChildren_children [simp]: "setChildren (children n) n = n"
  by (cases n) (simp add: setChildren_def)

lemma leafContents_setChildren:
  "leafContents (setChildren cs n) = leafContents (setChildren [] n) @ contentsOf cs"
  by (cases n) (simp add: setChildren_def contentsOf_def)

lemma leafContents_node: "leafContents n = leafContents (setChildren [] n) @ contentsOf (children n)"
  by (cases n) (simp add: setChildren_def contentsOf_def)

lemma contentsOf_simps [simp]:
  "contentsOf [] = []" "contentsOf (x # xs) = leafContents x @ contentsOf xs"
  "contentsOf (xs @ ys) = contentsOf xs @ contentsOf ys"
  by (simp_all add: contentsOf_def)

lemma node_at_append:
  "node_at t (p @ q) = (case node_at t p of None \<Rightarrow> None | Some n \<Rightarrow> node_at n q)"
  by (induction p arbitrary: t) auto

lemma update_at_append: "update_at (p @ q) f t = update_at p (update_at q f) t"
  by (induction p arbitrary: t) auto

lemma update_at_twice: "update_at p f (update_at p g t) = update_at p (\<lambda>n. f (g n)) t"
  by (induction p arbitrary: t) auto

lemma node_at_update_at: "node_at (update_at p f t) p = map_option f (node_at t p)"
  by (induction p arbitrary: t) auto

lemma update_at_invalid: "node_at t p = None \<Longrightarrow> update_at p f t = t"
  by (induction p arbitrary: t) (auto split: if_splits)

lemma contentsOf_list_update:
  "i < length cs \<Longrightarrow> leafContents x = leafContents (cs ! i) \<Longrightarrow> contentsOf (cs[i := x]) = contentsOf cs"
proof -
  assume a: "i < length cs" "leafContents x = leafContents (cs ! i)"
  have "(map leafContents cs)[i := leafContents (cs ! i)] = map leafContents cs"
    using a(1) by (subst list_update_same_conv) simp_all
  then show ?thesis using a by (simp add: contentsOf_def map_update)
qed

lemma leafContents_update_at:
  "node_at t p = Some n \<Longrightarrow> leafContents (f n) = leafContents n \<Longrightarrow>
   leafContents (update_at p f t) = leafContents t"
proof (induction p arbitrary: t)
  case Nil
  then show ?case by simp
next
  case (Cons i p)
  from Cons.prems(1) have i: "i < length (children t)" and n: "node_at (children t ! i) p = Some n"
    by (auto split: if_splits)
  from Cons.IH [OF n Cons.prems(2)]
  have "contentsOf ((children t)[i := update_at p f (children t ! i)]) = contentsOf (children t)"
    using i by (simp add: contentsOf_list_update)
  then show ?case using i
    by (cases t) (simp add: setChildren_def contentsOf_def)
qed

lemma node_at_parent:
  "node_at t p = Some c \<Longrightarrow> p \<noteq> [] \<Longrightarrow>
   \<exists>n. node_at t (butlast p) = Some n \<and> last p < length (children n) \<and> children n ! last p = c"
proof -
  assume a: "node_at t p = Some c" "p \<noteq> []"
  then have "node_at t (butlast p @ [last p]) = Some c" by simp
  then show ?thesis
    by (simp only: node_at_append) (auto split: option.splits if_splits)
qed

lemma childrenAt_Some: "node_at t p = Some n \<Longrightarrow> childrenAt t p = children n"
  by (simp add: childrenAt_def)

lemma take_slice_drop: "lo \<le> hi \<Longrightarrow> take lo cs @ slice lo hi cs @ drop hi cs = cs"
  by (metis add_diff_inverse_nat append.assoc append_take_drop_id linorder_not_less slice_def take_add)

lemma contentsOf_take_slice_drop:
  "lo \<le> hi \<Longrightarrow> contentsOf (take lo cs) @ contentsOf (slice lo hi cs) @ contentsOf (drop hi cs) = contentsOf cs"
  by (metis contentsOf_simps(3) take_slice_drop)

lemma leafContents_createUnderlineNode [simp]:
  "leafContents (setChildren cs (createUnderlineNode b)) = contentsOf cs"
  by (simp add: createUnderlineNode_def setChildren_def contentsOf_def)

lemma children_createUnderlineNode [simp]: "children (createUnderlineNode b) = []"
  by (simp add: createUnderlineNode_def)

lemma update_at_const: "node_at t p = Some n \<Longrightarrow> update_at p f t = update_at p (\<lambda>_. f n) t"
  by (induction p arbitrary: t) (auto split: if_splits)

lemma prims_put:
  assumes "node_at t p = Some n"
  shows "splice_at p k ns t = putChildren p (take k (children n) @ ns @ drop k (children n)) t"
    and "removeRange p lo hi t = putChildren p (take lo (children n) @ drop (max lo hi) (children n)) t"
    and "appendTo p ns t = putChildren p (children n @ ns) t"
    and "prependTo p ns t = putChildren p (ns @ children n) t"
  unfolding splice_at_def removeRange_def appendTo_def prependTo_def putChildren_def
  by (subst update_at_const [OF assms], subst (2) update_at_const [OF assms], simp)+

lemma node_at_putChildren:
  "node_at t p = Some n \<Longrightarrow> node_at (putChildren p cs t) p = Some (setChildren cs n)"
  by (simp add: putChildren_def node_at_update_at)

lemma putChildren_twice [simp]: "putChildren p cs' (putChildren p cs t) = putChildren p cs' t"
  by (simp add: putChildren_def update_at_twice)

lemma node_at_child:
  "node_at t p = Some n \<Longrightarrow> k < length (children n) \<Longrightarrow> node_at t (p @ [k]) = Some (children n ! k)"
  by (simp add: node_at_append)

lemma putChildren_child:
  assumes "node_at t p = Some n" and "k < length (children n)"
  shows "putChildren (p @ [k]) ds t = putChildren p ((children n)[k := setChildren ds (children n ! k)]) t"
proof -
  have "putChildren (p @ [k]) ds t = update_at p (update_at [k] (setChildren ds)) t"
    by (simp add: putChildren_def update_at_append)
  also have "\<dots> = update_at p (\<lambda>_. update_at [k] (setChildren ds) n) t"
    by (rule update_at_const [OF assms(1)])
  also have "\<dots> = update_at p (\<lambda>_. setChildren ((children n)[k := setChildren ds (children n ! k)]) n) t"
    using assms(2) by simp
  also have "\<dots> = putChildren p ((children n)[k := setChildren ds (children n ! k)]) t"
    unfolding putChildren_def by (rule update_at_const [OF assms(1), symmetric])
  finally show ?thesis .
qed

lemma leafContents_putChildren:
  "node_at t p = Some n \<Longrightarrow> contentsOf cs = contentsOf (children n) \<Longrightarrow>
   leafContents (putChildren p cs t) = leafContents t"
  unfolding putChildren_def
  by (rule leafContents_update_at, assumption, cases n) (simp add: setChildren_def contentsOf_def)

lemma sameLevel_contents:
  assumes "node_at t start = Some c" and "start \<noteq> []"
    and "addUnderline_sameLevel t start end = Inr t'"
  shows "leafContents t' = leafContents t"
proof -
  from node_at_parent [OF assms(1,2)] obtain n where n: "node_at t (butlast start) = Some n"
    and i: "last start < length (children n)" by blast
  let ?A = "butlast start" and ?cs = "children n" and ?lo = "last start" and ?hi = "Suc (last end)"
  let ?between = "slice ?lo ?hi ?cs"
  from assms(3) obtain b where len: "2 \<le> length ?between"
    and t': "t' = appendTo (?A @ [?lo]) ?between
                    (removeRange ?A (Suc ?lo) (Suc ?hi)
                      (splice_at ?A ?lo [createUnderlineNode b] t))"
    by (auto simp: addUnderline_sameLevel_def getSiblingBetween_def Let_def childrenAt_Some [OF n]
        split: if_splits option.splits)
  from len have lohi: "?lo < ?hi" by (auto simp: slice_def)
  let ?u = "createUnderlineNode b :: 'a SheetNode"
  let ?cs1 = "take ?lo ?cs @ [?u] @ drop ?lo ?cs"
  let ?cs2 = "take ?lo ?cs @ [?u] @ drop ?hi ?cs"
  let ?cs3 = "take ?lo ?cs @ [setChildren ?between ?u] @ drop ?hi ?cs"
  have t1: "splice_at ?A ?lo [?u] t = putChildren ?A ?cs1 t"
    by (rule prims_put(1) [OF n])
  have n1: "node_at (putChildren ?A ?cs1 t) ?A = Some (setChildren ?cs1 n)"
    by (rule node_at_putChildren [OF n])
  have "Suc ?hi - ?lo = Suc (?hi - ?lo)" using lohi by simp
  then have c2: "take (Suc ?lo) ?cs1 @ drop (max (Suc ?lo) (Suc ?hi)) ?cs1 = ?cs2"
    using i lohi by (simp add: max_def)
  have t2: "removeRange ?A (Suc ?lo) (Suc ?hi) (putChildren ?A ?cs1 t) = putChildren ?A ?cs2 t"
    using prims_put(2) [OF n1, of "Suc ?lo" "Suc ?hi"] c2 by simp
  have n2: "node_at (putChildren ?A ?cs2 t) ?A = Some (setChildren ?cs2 n)"
    by (rule node_at_putChildren [OF n])
  have l2: "?lo < length (children (setChildren ?cs2 n))" using i by simp
  have n3: "node_at (putChildren ?A ?cs2 t) (?A @ [?lo]) = Some ?u"
    using node_at_child [OF n2 l2] i by (simp add: nth_append)
  have c3: "?cs2[?lo := setChildren (children ?u @ ?between) (?cs2 ! ?lo)] = ?cs3"
    using i by (simp add: list_update_append nth_append)
  have t3: "appendTo (?A @ [?lo]) ?between (putChildren ?A ?cs2 t) = putChildren ?A ?cs3 t"
    using prims_put(3) [OF n3, of ?between] putChildren_child [OF n2 l2, of "children ?u @ ?between"] c3
    by simp
  have "contentsOf ?cs3 = contentsOf ?cs"
    using contentsOf_take_slice_drop [of ?lo ?hi ?cs] lohi by simp
  then show ?thesis
    unfolding t' t1 t2 t3 by (rule leafContents_putChildren [OF n])
qed

subsection \<open>Paths\<close>

lemma parentsOf_iff: "A \<in> set (parentsOf p) \<longleftrightarrow> (\<exists>k<length p. A = take k p)"
  by (auto simp: parentsOf_def)

lemma parentUntil_SomeD:
  assumes "parentUntil p A = Some q"
  shows "length A < length p" and "q = A @ [p ! length A]" and "p = q @ drop (Suc (length A)) p"
proof -
  from assms have m: "A \<in> set (parentsOf p)" and q: "q = take (Suc (length A)) p"
    by (auto simp: parentUntil_def split: if_splits)
  from m obtain k where k: "k < length p" "A = take k p" by (auto simp: parentsOf_iff)
  then have l: "length A = k" by simp
  show "length A < length p" using k l by simp
  show "q = A @ [p ! length A]" using k l q by (simp add: take_Suc_conv_app_nth)
  show "p = q @ drop (Suc (length A)) p" using q by simp
qed

lemma node_at_prefix: "node_at t (p @ q) = Some x \<Longrightarrow> \<exists>y. node_at t p = Some y"
  by (auto simp: node_at_append split: option.splits)

lemma node_at_childD:
  "node_at t (p @ [k]) = Some x \<Longrightarrow>
   \<exists>n. node_at t p = Some n \<and> k < length (children n) \<and> children n ! k = x"
  by (auto simp: node_at_append split: option.splits if_splits)

text \<open>The child of an ancestor on the way to a node of the tree is a node of the tree.\<close>

lemma parentUntil_valid:
  assumes "parentUntil p A = Some q" and "node_at t p = Some c"
  shows "\<exists>n. node_at t A = Some n \<and> p ! length A < length (children n) \<and>
             node_at t q = Some (children n ! (p ! length A))"
proof -
  note d = parentUntil_SomeD [OF assms(1)]
  from d(3) assms(2) have "node_at t (q @ drop (Suc (length A)) p) = Some c" by simp
  from node_at_prefix [OF this] obtain y where y: "node_at t q = Some y" by blast
  then have "node_at t (A @ [p ! length A]) = Some y" using d(2) by simp
  from node_at_childD [OF this] y d(2) show ?thesis by auto
qed

lemma paths_from_heads: "q \<in> set (paths_from i ns) \<Longrightarrow> q \<noteq> [] \<and> i \<le> hd q"
  by (induction ns arbitrary: i) (auto dest: Suc_leD)

lemma distinct_paths: "distinct (paths (t :: 'c SheetNode))"
  and distinct_paths_from: "distinct (paths_from i (ns :: 'c SheetNode list))"
proof (induction t and i ns rule: paths_paths_from.induct)
  case (1 t c h cs)
  then show ?case by (auto dest: paths_from_heads)
next
  case (2 i)
  then show ?case by simp
next
  case (3 i n ns)
  have "set (map ((#) i) (paths n)) \<inter> set (paths_from (Suc i) ns) = {}"
    by (auto dest: paths_from_heads)
  with 3 show ?case by (simp add: distinct_map)
qed

lemma findNext_SomeD:
  assumes "findNextNodeByType t p ty = Some q"
  shows "q \<noteq> p" and "\<exists>x. node_at t q = Some x \<and> ntype x = ty"
proof -
  let ?rest = "tl (dropWhile (\<lambda>q. q \<noteq> p) (paths t))"
  from assms have mem: "q \<in> set ?rest" and ty: "hasType t ty q"
    by (auto simp: findNextNodeByType_def find_Some_iff)
  show "\<exists>x. node_at t q = Some x \<and> ntype x = ty"
    using ty by (auto simp: hasType_def split: option.splits)
  show "q \<noteq> p"
  proof (cases "dropWhile (\<lambda>q. q \<noteq> p) (paths t)")
    case Nil
    with mem show ?thesis by simp
  next
    case (Cons a as)
    have "a = p"
      using hd_dropWhile [of "\<lambda>q. q \<noteq> p" "paths t"] Cons by simp
    moreover have "distinct (dropWhile (\<lambda>q. q \<noteq> p) (paths t))"
      by (simp add: distinct_paths)
    then have "distinct (a # as)" using Cons by simp
    ultimately show ?thesis using mem Cons by auto
  qed
qed

lemma subnodes_self: "t \<in> set (subnodes t)"
  by (cases t) simp

lemma node_at_subnodes: "node_at t p = Some x \<Longrightarrow> x \<in> set (subnodes t)"
proof (induction p arbitrary: t)
  case Nil
  then show ?case by (simp add: subnodes_self)
next
  case (Cons i p)
  then have "i < length (children t)" and "x \<in> set (subnodes (children t ! i))"
    by (auto split: if_splits)
  then show ?case by (cases t) (auto intro: nth_mem)
qed

lemma group_of_parent:
  assumes "onlyGroupsHaveChildren t" and "node_at t p = Some x" and "children x \<noteq> []"
  shows "ntype x = Root \<or> isUnderline x"
  using assms node_at_subnodes [OF assms(2)]
  by (auto simp: onlyGroupsHaveChildren_def list_all_iff)

lemma leafContents_group:
  "ntype x = Root \<or> isUnderline x \<Longrightarrow> leafContents (setChildren cs x) = contentsOf cs"
  by (cases x) (auto simp: setChildren_def contentsOf_def isUnderline_def)

lemma leafContents_group': "ntype x = Root \<or> isUnderline x \<Longrightarrow> leafContents x = contentsOf (children x)"
  using leafContents_group [of x "children x"] by simp

lemma leafContents_more_children:
  "leafContents (setChildren (children x @ bs) x) = leafContents x @ contentsOf bs"
  by (cases x) (simp add: setChildren_def contentsOf_def)

lemma leafContents_fewer_children:
  "leafContents (setChildren (take k (children x)) x) @ contentsOf (drop k (children x)) = leafContents x"
  by (cases x) (simp add: setChildren_def contentsOf_def flip: map_append concat_append)

lemma take_slice_drop_max: "take lo cs @ slice lo hi cs @ drop (max lo hi) cs = cs"
proof (cases "lo \<le> hi")
  case True
  then show ?thesis using take_slice_drop [of lo hi cs] by (simp add: max_def)
next
  case False
  then show ?thesis by (simp add: slice_def max_def)
qed

lemma contentsOf_take_slice_drop_max:
  "contentsOf (take lo cs) @ contentsOf (slice lo hi cs) @ contentsOf (drop (max lo hi) cs) = contentsOf cs"
  by (metis contentsOf_simps(3) take_slice_drop_max)

lemma contentsOf_update:
  "k < length cs \<Longrightarrow>
   contentsOf (cs[k := x]) = contentsOf (take k cs) @ leafContents x @ contentsOf (drop (Suc k) cs)"
  by (simp add: upd_conv_take_nth_drop)

lemma contentsOf_take_Suc:
  "k < length cs \<Longrightarrow> contentsOf (take (Suc k) cs) = contentsOf (take k cs) @ leafContents (cs ! k)"
  by (simp add: take_Suc_conv_app_nth)

lemma extendForward_contents:
  assumes "node_at t start = Some c"
    and "addUnderline_extendForward t start end = Inr t'"
  shows "leafContents t' = leafContents t"
proof -
  let ?A = "butlast end"
  from assms(2) obtain su where pu: "parentUntil start ?A = Some su"
    by (auto simp: addUnderline_extendForward_def split: option.splits)
  note d = parentUntil_SomeD [OF pu]
  let ?k = "start ! length ?A"
  from parentUntil_valid [OF pu assms(1)] obtain n where n: "node_at t ?A = Some n"
    and k: "?k < length (children n)" and su: "node_at t su = Some (children n ! ?k)"
    by blast
  let ?cs = "children n" and ?lo = "Suc ?k" and ?hi = "Suc (last end)"
  let ?between = "slice ?lo ?hi ?cs"
  have lsu: "last su = ?k" using d(2) by simp
  from assms(2) pu have t': "t' = appendTo su ?between (removeRange ?A ?lo ?hi t)"
    by (auto simp: addUnderline_extendForward_def getSiblingBetween_def Let_def lsu
        childrenAt_Some [OF n] split: option.splits if_splits)
  let ?cs1 = "take ?lo ?cs @ drop (max ?lo ?hi) ?cs"
  let ?x = "setChildren (children (?cs ! ?k) @ ?between) (?cs ! ?k)"
  have t1: "removeRange ?A ?lo ?hi t = putChildren ?A ?cs1 t"
    by (rule prims_put(2) [OF n])
  have n1: "node_at (putChildren ?A ?cs1 t) ?A = Some (setChildren ?cs1 n)"
    by (rule node_at_putChildren [OF n])
  have l1: "?k < length (children (setChildren ?cs1 n))" using k by simp
  have e1: "?cs1 ! ?k = ?cs ! ?k" using k by (simp add: nth_append)
  have n2: "node_at (putChildren ?A ?cs1 t) su = Some (?cs ! ?k)"
    using node_at_child [OF n1 l1] d(2) e1 by simp
  have t2: "appendTo su ?between (putChildren ?A ?cs1 t) = putChildren ?A (?cs1[?k := ?x]) t"
    using prims_put(3) [OF n2, of ?between] putChildren_child [OF n1 l1, of "children (?cs ! ?k) @ ?between"]
      d(2) e1 by simp
  have "contentsOf (?cs1[?k := ?x]) =
     contentsOf (take ?k ?cs) @ (leafContents (?cs ! ?k) @ contentsOf ?between) @ contentsOf (drop (max ?lo ?hi) ?cs)"
    using k by (simp add: contentsOf_update leafContents_more_children min_def)
  also have "\<dots> = contentsOf (take ?lo ?cs) @ contentsOf ?between @ contentsOf (drop (max ?lo ?hi) ?cs)"
    using k by (simp add: contentsOf_take_Suc)
  also have "\<dots> = contentsOf ?cs"
    by (rule contentsOf_take_slice_drop_max)
  finally show ?thesis
    unfolding t' t1 t2 by (rule leafContents_putChildren [OF n])
qed

lemma length_slice: "hi \<le> length cs \<Longrightarrow> length (slice lo hi cs) = hi - lo"
  by (auto simp: slice_def)

lemma extendBackward_contents:
  assumes "node_at t start = Some c" and "start \<noteq> []" and "node_at t end = Some e"
    and "butlast end \<noteq> butlast start" and "onlyGroupsHaveChildren t"
    and "addUnderline_extendBackward t start end = Inr t'"
  shows "leafContents t' = leafContents t"
proof -
  let ?A = "butlast start"
  from assms(6) obtain eu where pu: "parentUntil end ?A = Some eu"
    by (auto simp: addUnderline_extendBackward_def split: option.splits)
  define k where "k = end ! length ?A"
  note d = parentUntil_SomeD [OF pu, folded k_def]
  let ?k = k and ?i = "last start"
  from parentUntil_valid [OF pu assms(3), folded k_def] obtain n where n: "node_at t ?A = Some n"
    and k: "?k < length (children n)" and eu: "node_at t eu = Some (children n ! ?k)"
    by blast
  from node_at_parent [OF assms(1,2)] n have i: "?i < length (children n)" by auto
  let ?cs = "children n"
  let ?between = "slice ?i ?k ?cs"
  have leu: "last eu = ?k" using d(2) by simp
  from assms(6) pu have ne: "eu \<noteq> start"
    and t': "t' = prependTo (?A @ [?k - length ?between]) ?between (removeRange ?A ?i ?k t)"
    by (auto simp: addUnderline_extendBackward_def getSiblingBetween_def Let_def leu
        childrenAt_Some [OF n] split: option.splits if_splits)
  have ik: "?i \<noteq> ?k"
  proof
    assume "?i = ?k"
    then have "eu = ?A @ [last start]" using d(2) by simp
    then show False using ne assms(2) by simp
  qed
  \<comment> \<open>the underline of the end chord is a group: the end chord lies strictly below it\<close>
  have grp: "ntype (?cs ! ?k) = Root \<or> isUnderline (?cs ! ?k)"
  proof -
    have "drop (Suc (length ?A)) end \<noteq> []"
    proof
      assume "drop (Suc (length ?A)) end = []"
      then have "end = eu" using d(3) by simp
      then have "end = ?A @ [?k]" using d(2) by simp
      then have "butlast end = ?A" by (metis butlast_snoc)
      then show False using assms(4) by simp
    qed
    moreover have "node_at t (eu @ drop (Suc (length ?A)) end) = Some e"
      using d(3) assms(3) by simp
    ultimately have "children (?cs ! ?k) \<noteq> []"
      using eu by (cases "drop (Suc (length ?A)) end") (auto simp: node_at_append split: if_splits)
    from group_of_parent [OF assms(5) eu this] show ?thesis .
  qed
  let ?cs1 = "take ?i ?cs @ drop (max ?i ?k) ?cs"
  have t1: "removeRange ?A ?i ?k t = putChildren ?A ?cs1 t"
    by (rule prims_put(2) [OF n])
  have n1: "node_at (putChildren ?A ?cs1 t) ?A = Some (setChildren ?cs1 n)"
    by (rule node_at_putChildren [OF n])
  show ?thesis
  proof (cases "?i < ?k")
    case True
    then have lb: "length ?between = ?k - ?i" using k by (simp add: length_slice)
    then have k': "?k - length ?between = ?i" using True by simp
    have c1: "?cs1 = take ?i ?cs @ drop ?k ?cs" using True by (simp add: max_def)
    have l1: "?i < length (children (setChildren ?cs1 n))" using i k True by (simp add: c1)
    have e1: "?cs1 ! ?i = ?cs ! ?k" using i k True by (simp add: c1 nth_append)
    let ?x = "setChildren (?between @ children (?cs ! ?k)) (?cs ! ?k)"
    have n2: "node_at (putChildren ?A ?cs1 t) (?A @ [?i]) = Some (?cs ! ?k)"
      using node_at_child [OF n1 l1] e1 by simp
    have t2: "prependTo (?A @ [?i]) ?between (putChildren ?A ?cs1 t) = putChildren ?A (?cs1[?i := ?x]) t"
      using prims_put(4) [OF n2, of ?between]
        putChildren_child [OF n1 l1, of "?between @ children (?cs ! ?k)"] e1 by simp
    have d1: "drop (Suc ?i) (take ?i ?cs @ drop ?k ?cs) = drop (Suc ?k) ?cs"
      using i k True by simp
    have "contentsOf (?cs1[?i := ?x]) =
       contentsOf (take ?i ?cs) @ (contentsOf ?between @ contentsOf (children (?cs ! ?k)))
         @ contentsOf (drop (Suc ?k) ?cs)"
      using l1 i True by (simp add: contentsOf_update leafContents_group [OF grp] c1 d1)
    also have "\<dots> = contentsOf (take ?i ?cs) @ contentsOf ?between @ contentsOf (drop ?k ?cs)"
      using k by (simp add: leafContents_group' [OF grp] flip: Cons_nth_drop_Suc)
    also have "\<dots> = contentsOf ?cs"
      using contentsOf_take_slice_drop [of ?i ?k ?cs] True by simp
    finally show ?thesis
      unfolding t' t1 k' t2 by (rule leafContents_putChildren [OF n])
  next
    case False
    then have lt: "?k < ?i" using ik by simp
    then have b: "?between = []" by (simp add: slice_def)
    have c1: "?cs1 = ?cs" using lt by (simp add: max_def)
    have n2: "node_at (putChildren ?A ?cs t) (?A @ [?k]) = Some (?cs ! ?k)"
      using node_at_child [OF n1 [unfolded c1]] k by simp
    have t2: "prependTo (?A @ [?k]) [] (putChildren ?A ?cs t) = putChildren ?A ?cs t"
      using prims_put(4) [OF n2, of "[]"]
        putChildren_child [OF n1 [unfolded c1], of ?k "children (?cs ! ?k)"] k by simp
    show ?thesis
      unfolding t' t1 b c1 using t2 leafContents_putChildren [OF n, of ?cs] by simp
  qed
qed

lemma prims_put_replaceAt:
  assumes "node_at t p = Some n"
  shows "replaceAt (p @ [i]) ns t =
           putChildren p (take i (take i (children n) @ drop (max i (Suc i)) (children n)) @ ns @
                          drop i (take i (children n) @ drop (max i (Suc i)) (children n))) t"
proof -
  let ?cs1 = "take i (children n) @ drop (max i (Suc i)) (children n)"
  have n1: "node_at (putChildren p ?cs1 t) p = Some (setChildren ?cs1 n)"
    by (rule node_at_putChildren [OF assms])
  show ?thesis
    unfolding replaceAt_def using prims_put(2) [OF assms, of i "Suc i"] prims_put(1) [OF n1, of i ns]
    by simp
qed

lemma replaceAt_put:
  assumes "node_at t p = Some n" and "i < length (children n)"
  shows "replaceAt (p @ [i]) ns t =
           putChildren p (take i (children n) @ ns @ drop (Suc i) (children n)) t"
  using prims_put_replaceAt [OF assms(1), of i ns] assms(2) by (simp add: max_def)

lemma merge_core:
  assumes n: "node_at t A = Some n" and ij: "i < j" and j: "j < length (children n)"
    and ui: "isUnderline (children n ! i)" and uj: "isUnderline (children n ! j)"
  shows "leafContents
           (replaceAt (A @ [i])
              [setChildren (children (createUnderlineNode b) @ children (children n ! i)
                  @ slice (Suc i) j (children n) @ children (children n ! j)) (createUnderlineNode b)]
              (removeRange A (j - length (slice (Suc i) j (children n)))
                 (Suc (j - length (slice (Suc i) j (children n))))
                 (removeRange A (Suc i) j t)))
         = leafContents t"
proof -
  let ?cs = "children n"
  let ?between = "slice (Suc i) j ?cs"
  let ?m = "setChildren (children (createUnderlineNode b) @ children (?cs ! i) @ ?between
               @ children (?cs ! j)) (createUnderlineNode b) :: 'a SheetNode"
  have lb: "j - length ?between = Suc i" using ij j by (simp add: length_slice)
  let ?cs1 = "take (Suc i) ?cs @ drop j ?cs"
  let ?cs2 = "take (Suc i) ?cs @ drop (Suc j) ?cs"
  let ?cs4 = "take i ?cs @ [?m] @ drop (Suc j) ?cs"
  have t1: "removeRange A (Suc i) j t = putChildren A ?cs1 t"
    using prims_put(2) [OF n, of "Suc i" j] ij by (simp add: max_def)
  have n1: "node_at (putChildren A ?cs1 t) A = Some (setChildren ?cs1 n)"
    by (rule node_at_putChildren [OF n])
  have c2: "take (Suc i) ?cs1 @ drop (max (Suc i) (Suc (Suc i))) ?cs1 = ?cs2"
    using ij j by (simp add: max_def)
  have t2: "removeRange A (Suc i) (Suc (Suc i)) (putChildren A ?cs1 t) = putChildren A ?cs2 t"
    using prims_put(2) [OF n1, of "Suc i" "Suc (Suc i)"] c2 by simp
  have n2: "node_at (putChildren A ?cs2 t) A = Some (setChildren ?cs2 n)"
    by (rule node_at_putChildren [OF n])
  have c4: "take i ?cs2 @ [?m] @ drop (Suc i) ?cs2 = ?cs4"
    using ij j by (simp add: min_def)
  have t3: "replaceAt (A @ [i]) [?m] (putChildren A ?cs2 t) = putChildren A ?cs4 t"
    using replaceAt_put [OF n2, of i "[?m]"] c4 ij j by simp
  have "contentsOf ?cs4 =
      contentsOf (take i ?cs) @ (leafContents (?cs ! i) @ contentsOf ?between @ leafContents (?cs ! j))
        @ contentsOf (drop (Suc j) ?cs)"
    using ui uj by (simp add: leafContents_group')
  also have "\<dots> = contentsOf (take (Suc i) ?cs) @ contentsOf ?between @ contentsOf (drop j ?cs)"
    using ij j by (simp add: contentsOf_take_Suc flip: Cons_nth_drop_Suc)
  also have "\<dots> = contentsOf ?cs"
    using contentsOf_take_slice_drop [of "Suc i" j ?cs] ij by simp
  finally show ?thesis
    unfolding lb t1 t2 t3 by (rule leafContents_putChildren [OF n])
qed

lemma merge_contents:
  assumes "node_at t start = Some c" and "node_at t end = Some e"
    and "addUnderline_merge t start end = Inr t'"
  shows "leafContents t' = leafContents t"
proof -
  from assms(3) obtain A su0 eu0 where ca: "commonAncestor start end = Some A"
    and pu1: "parentUntil start A = Some su0" and pu2: "parentUntil end A = Some eu0"
    by (auto simp: addUnderline_merge_def split: option.splits)
  define a where "a = start ! length A"
  define b where "b = end ! length A"
  note d1 = parentUntil_SomeD [OF pu1, folded a_def]
  note d2 = parentUntil_SomeD [OF pu2, folded b_def]
  from parentUntil_valid [OF pu1 assms(1), folded a_def] obtain n where n: "node_at t A = Some n"
    and a: "a < length (children n)" and sn: "node_at t su0 = Some (children n ! a)"
    by blast
  from parentUntil_valid [OF pu2 assms(2), folded b_def] n
  have b: "b < length (children n)" and en: "node_at t eu0 = Some (children n ! b)"
    by auto
  have l: "last su0 = a" "last eu0 = b" "butlast su0 = A" "butlast eu0 = A"
    using d1(2) d2(2) by simp_all
  from assms(3) ca pu1 pu2 sn en
  have ua: "isUnderline (children n ! a)" and ub: "isUnderline (children n ! b)"
    and ne: "su0 \<noteq> eu0"
    by (auto simp: addUnderline_merge_def split: option.splits if_splits)
  then have ab: "a \<noteq> b" using d1(2) d2(2) by auto
  show ?thesis
  proof (cases "b < a")
    case True
    from assms(3) ca pu1 pu2 sn en True
    have "t' = replaceAt (A @ [b])
              [setChildren (children (createUnderlineNode (hasType t UnderlinePure eu0))
                  @ children (children n ! b)
                  @ slice (Suc b) a (children n) @ children (children n ! a))
                 (createUnderlineNode (hasType t UnderlinePure eu0))]
              (removeRange A (a - length (slice (Suc b) a (children n)))
                 (Suc (a - length (slice (Suc b) a (children n))))
                 (removeRange A (Suc b) a t))"
      by (simp add: addUnderline_merge_def l getSiblingBetween_def Let_def childrenAt_Some [OF n]
          childrenAt_Some [OF sn] childrenAt_Some [OF en] d2(2) [symmetric]
          split: option.splits if_splits)
    then show ?thesis using merge_core [OF n True a ub ua] by simp
  next
    case False
    then have lt: "a < b" using ab by simp
    from assms(3) ca pu1 pu2 sn en False
    have "t' = replaceAt (A @ [a])
              [setChildren (children (createUnderlineNode (hasType t UnderlinePure su0))
                  @ children (children n ! a)
                  @ slice (Suc a) b (children n) @ children (children n ! b))
                 (createUnderlineNode (hasType t UnderlinePure su0))]
              (removeRange A (b - length (slice (Suc a) b (children n)))
                 (Suc (b - length (slice (Suc a) b (children n))))
                 (removeRange A (Suc a) b t))"
      by (simp add: addUnderline_merge_def l getSiblingBetween_def Let_def childrenAt_Some [OF n]
          childrenAt_Some [OF sn] childrenAt_Some [OF en] d1(2) [symmetric]
          split: option.splits if_splits)
    then show ?thesis using merge_core [OF n lt b ua ub] by simp
  qed
qed

lemma addUnderline_contents:
  assumes "onlyGroupsHaveChildren t" and "addUnderlineForChord_body p t = Inr t'"
  shows "leafContents t' = leafContents t"
proof -
  from assms(2) obtain c q where c: "node_at t p = Some c"
    and f: "findNextNodeByType t p (ntype c) = Some q"
    by (auto simp: addUnderlineForChord_body_def Let_def split: option.splits if_splits)
  from findNext_SomeD [OF f] obtain e where qp: "q \<noteq> p" and e: "node_at t q = Some e"
    by blast
  consider (same) "parentOf p = parentOf q" "addUnderline_sameLevel t p q = Inr t'"
    | (fwd) "addUnderline_extendForward t p q = Inr t'"
    | (bwd) "parentOf p \<noteq> parentOf q" "isAncestorOf (parentOf p) q"
        "addUnderline_extendBackward t p q = Inr t'"
    | (merge) "addUnderline_merge t p q = Inr t'"
    using assms(2) c f
    by (auto simp: addUnderlineForChord_body_def Let_def split: option.splits if_splits)
  then show ?thesis
  proof cases
    case same
    then have "p \<noteq> []" using qp by (auto simp: parentOf_def split: if_splits)
    from sameLevel_contents [OF c this same(2)] show ?thesis .
  next
    case fwd
    from extendForward_contents [OF c fwd] show ?thesis .
  next
    case bwd
    from bwd(2) have p: "p \<noteq> []" and "butlast p \<in> set (parentsOf q)"
      by (auto simp: isAncestorOf_def parentOf_def split: option.splits if_splits)
    then have "q \<noteq> []" by (auto simp: parentsOf_iff)
    with bwd(1) p have "butlast q \<noteq> butlast p" by (auto simp: parentOf_def)
    from extendBackward_contents [OF c p e this assms(1) bwd(3)] show ?thesis .
  next
    case merge
    from merge_contents [OF c e merge] show ?thesis .
  qed
qed

lemma hasType_underlineD:
  "hasType t Underline p \<or> hasType t UnderlinePure p \<Longrightarrow> \<exists>u. node_at t p = Some u \<and> isUnderline u"
  by (auto simp: hasType_def isUnderline_def split: option.splits)

lemma dissolve_contents:
  assumes "node_at t common = Some u" and "isUnderline u"
    and "removeUnderline_dissolve t common = Inr t'"
  shows "leafContents t' = leafContents t"
proof -
  from assms(3) have ne: "common \<noteq> []" and t': "t' = replaceAt common (children u) t"
    by (auto simp: removeUnderline_dissolve_def childrenAt_Some [OF assms(1)] split: if_splits)
  from node_at_parent [OF assms(1) ne] obtain n where n: "node_at t (butlast common) = Some n"
    and k: "last common < length (children n)" and u: "children n ! last common = u"
    by blast
  let ?cs = "children n" and ?k = "last common"
  have r: "replaceAt (butlast common @ [?k]) (children u) t =
             putChildren (butlast common) (take ?k ?cs @ children u @ drop (Suc ?k) ?cs) t"
    by (rule replaceAt_put [OF n k])
  have "contentsOf (take ?k ?cs @ children u @ drop (Suc ?k) ?cs) =
        contentsOf (take ?k ?cs) @ leafContents (?cs ! ?k) @ contentsOf (drop (Suc ?k) ?cs)"
    using assms(2) u by (simp add: leafContents_group')
  also have "\<dots> = contentsOf ?cs"
    using k by (metis append_take_drop_id contentsOf_simps(2,3) Cons_nth_drop_Suc)
  finally show ?thesis
    using r ne unfolding t' by (simp add: leafContents_putChildren [OF n])
qed

lemma contentsOf_nth_split:
  "k < length cs \<Longrightarrow> contentsOf (take k cs) @ leafContents (cs ! k) @ contentsOf (drop (Suc k) cs) = contentsOf cs"
  by (metis append_take_drop_id contentsOf_simps(2,3) Cons_nth_drop_Suc)

lemma shrinkTail_contents:
  assumes "node_at t common = Some u"
    and "removeUnderline_shrinkTail t common startNode = Inr t'"
  shows "leafContents t' = leafContents t"
proof -
  define i where "i = last startNode"
  let ?ucs = "children u"
  from assms(2) have ne: "common \<noteq> []"
    and t': "t' = splice_at (butlast common) (Suc (last common)) (slice (Suc i) (length ?ucs) ?ucs)
                    (removeRange common (Suc i) (length ?ucs) t)"
    by (auto simp: removeUnderline_shrinkTail_def childrenAt_Some [OF assms(1)] Let_def i_def
        split: if_splits)
  from node_at_parent [OF assms(1) ne] obtain n where n: "node_at t (butlast common) = Some n"
    and k: "last common < length (children n)" and u: "children n ! last common = u"
    by blast
  let ?P = "butlast common" and ?cs = "children n" and ?k = "last common"
  have cm: "common = ?P @ [?k]" using ne by simp
  have sl: "slice (Suc i) (length ?ucs) ?ucs = drop (Suc i) ?ucs" by (simp add: slice_def)
  let ?u1 = "setChildren (take (Suc i) ?ucs) u"
  have "removeRange common (Suc i) (length ?ucs) t = putChildren common (take (Suc i) ?ucs) t"
    using prims_put(2) [OF assms(1), of "Suc i" "length ?ucs"] by (simp add: max_def)
  also have "\<dots> = putChildren ?P (?cs[?k := ?u1]) t"
    using putChildren_child [OF n k, of "take (Suc i) ?ucs"] cm u by simp
  finally have t1: "removeRange common (Suc i) (length ?ucs) t = putChildren ?P (?cs[?k := ?u1]) t" .
  have n1: "node_at (putChildren ?P (?cs[?k := ?u1]) t) ?P = Some (setChildren (?cs[?k := ?u1]) n)"
    by (rule node_at_putChildren [OF n])
  let ?cs2 = "take ?k ?cs @ [?u1] @ drop (Suc i) ?ucs @ drop (Suc ?k) ?cs"
  have c2: "take (Suc ?k) (?cs[?k := ?u1]) @ drop (Suc i) ?ucs @ drop (Suc ?k) (?cs[?k := ?u1]) = ?cs2"
    using k by (simp add: take_Suc_conv_app_nth)
  have t2: "splice_at ?P (Suc ?k) (drop (Suc i) ?ucs) (putChildren ?P (?cs[?k := ?u1]) t)
              = putChildren ?P ?cs2 t"
    using prims_put(1) [OF n1, of "Suc ?k" "drop (Suc i) ?ucs"] c2 by simp
  have "contentsOf ?cs2 = contentsOf (take ?k ?cs) @ leafContents u @ contentsOf (drop (Suc ?k) ?cs)"
    using leafContents_fewer_children [of "Suc i" u] by simp
  also have "\<dots> = contentsOf ?cs"
    using contentsOf_nth_split [OF k] u by simp
  finally show ?thesis
    unfolding t' sl t1 t2 by (rule leafContents_putChildren [OF n])
qed

lemma shrinkHead_contents:
  assumes "node_at t common = Some u" and "isUnderline u"
    and "removeUnderline_shrinkHead t common endNode = Inr t'"
  shows "leafContents t' = leafContents t"
proof -
  define j where "j = last endNode"
  let ?ucs = "children u"
  from assms(3) have ne: "common \<noteq> []"
    and t': "t' = splice_at (butlast common) (last common) (slice 0 j ?ucs)
                    (removeRange common 0 j t)"
    by (auto simp: removeUnderline_shrinkHead_def childrenAt_Some [OF assms(1)] Let_def j_def
        split: if_splits)
  from node_at_parent [OF assms(1) ne] obtain n where n: "node_at t (butlast common) = Some n"
    and k: "last common < length (children n)" and u: "children n ! last common = u"
    by blast
  let ?P = "butlast common" and ?cs = "children n" and ?k = "last common"
  have cm: "common = ?P @ [?k]" using ne by simp
  have sl: "slice 0 j ?ucs = take j ?ucs" by (simp add: slice_def)
  let ?u1 = "setChildren (drop j ?ucs) u"
  have "removeRange common 0 j t = putChildren common (drop j ?ucs) t"
    using prims_put(2) [OF assms(1), of 0 j] by simp
  also have "\<dots> = putChildren ?P (?cs[?k := ?u1]) t"
    using putChildren_child [OF n k, of "drop j ?ucs"] cm u by simp
  finally have t1: "removeRange common 0 j t = putChildren ?P (?cs[?k := ?u1]) t" .
  have n1: "node_at (putChildren ?P (?cs[?k := ?u1]) t) ?P = Some (setChildren (?cs[?k := ?u1]) n)"
    by (rule node_at_putChildren [OF n])
  let ?cs2 = "take ?k ?cs @ take j ?ucs @ [?u1] @ drop (Suc ?k) ?cs"
  have c2: "take ?k (?cs[?k := ?u1]) @ take j ?ucs @ drop ?k (?cs[?k := ?u1]) = ?cs2"
    using k by (simp add: drop_update_cancel Cons_nth_drop_Suc [symmetric] flip: upd_conv_take_nth_drop)
  have t2: "splice_at ?P ?k (take j ?ucs) (putChildren ?P (?cs[?k := ?u1]) t) = putChildren ?P ?cs2 t"
    using prims_put(1) [OF n1, of ?k "take j ?ucs"] c2 by simp
  have "contentsOf (take j ?ucs) @ contentsOf (drop j ?ucs) = contentsOf ?ucs"
    by (metis append_take_drop_id contentsOf_simps(3))
  then have "contentsOf ?cs2 = contentsOf (take ?k ?cs) @ leafContents u @ contentsOf (drop (Suc ?k) ?cs)"
    using assms(2) by (simp add: leafContents_group leafContents_group')
  also have "\<dots> = contentsOf ?cs"
    using contentsOf_nth_split [OF k] u by simp
  finally show ?thesis
    unfolding t' sl t1 t2 by (rule leafContents_putChildren [OF n])
qed

lemma split_core:
  assumes n: "node_at t P = Some n" and k: "k < length (children n)" and u: "children n ! k = u"
    and uu: "isUnderline u" and ij: "i < j" and j: "j < length (children u)"
  shows "leafContents
    (let betweenNodes = slice (Suc i) j (children u);
         leftUnderline = createUnderlineNode b;
         rightUnderline = createUnderlineNode b;
         m = length betweenNodes;
         t1 = splice_at P k [leftUnderline] t;
         t2 = splice_at P (k + 1) betweenNodes (removeRange (P @ [k + 1]) (Suc i) j t1);
         t3 = splice_at P (k + 1 + m) [rightUnderline] t2;
         rest = childrenAt t3 (P @ [k + 2 + m]);
         t4 = removeRange P (k + 2 + m) (k + 3 + m) t3;
         t5 = appendTo (P @ [k]) (slice 0 (i + 1) rest) t4;
         t6 = appendTo (P @ [k + 1 + m]) (slice (j - m) (length rest) rest) t5
     in t6) = leafContents t"
proof -
  define pre where "pre = take k (children n)"
  define post where "post = drop (Suc k) (children n)"
  define ucs where "ucs = children u"
  define bs where "bs = slice (Suc i) j ucs"
  define L where "L = (createUnderlineNode b :: 'a SheetNode)"
  define rest where "rest = take (Suc i) ucs @ drop j ucs"
  define u1 where "u1 = setChildren rest u"
  have cs: "children n = pre @ u # post"
    unfolding pre_def post_def using id_take_nth_drop [OF k] u by simp
  have lp: "length pre = k" using k by (simp add: pre_def)
  have lb: "length bs = j - Suc i" using j by (simp add: bs_def ucs_def length_slice)
  have Lc: "children L = []" by (simp add: L_def)
  \<comment> \<open>step 1: the left underline goes in front of the old one\<close>
  have t1: "splice_at P k [L] t = putChildren P (pre @ L # u # post) t"
    using prims_put(1) [OF n, of k "[L]"] by (simp add: cs lp)
  have n1: "node_at (putChildren P (pre @ L # u # post) t) P = Some (setChildren (pre @ L # u # post) n)"
    by (rule node_at_putChildren [OF n])
  have l1: "k + 1 < length (children (setChildren (pre @ L # u # post) n))" by (simp add: lp)
  have n1u: "node_at (putChildren P (pre @ L # u # post) t) (P @ [k + 1]) = Some u"
    using node_at_child [OF n1 l1] by (simp add: nth_append lp)
  \<comment> \<open>step 2: the nodes in between leave the old underline and go in front of it\<close>
  have "removeRange (P @ [k + 1]) (Suc i) j (putChildren P (pre @ L # u # post) t)
          = putChildren (P @ [k + 1]) rest (putChildren P (pre @ L # u # post) t)"
    using prims_put(2) [OF n1u, of "Suc i" j] ij by (simp add: rest_def ucs_def max_def)
  also have "\<dots> = putChildren P (pre @ L # u1 # post) t"
    using putChildren_child [OF n1 l1, of rest] by (simp add: nth_append lp list_update_append u1_def)
  finally have r2: "removeRange (P @ [k + 1]) (Suc i) j (putChildren P (pre @ L # u # post) t)
          = putChildren P (pre @ L # u1 # post) t" .
  have n2: "node_at (putChildren P (pre @ L # u1 # post) t) P = Some (setChildren (pre @ L # u1 # post) n)"
    by (rule node_at_putChildren [OF n])
  have t2: "splice_at P (k + 1) bs (putChildren P (pre @ L # u1 # post) t)
          = putChildren P (pre @ L # bs @ u1 # post) t"
    using prims_put(1) [OF n2, of "k + 1" bs] by (simp add: lp)
  have n3: "node_at (putChildren P (pre @ L # bs @ u1 # post) t) P
              = Some (setChildren (pre @ L # bs @ u1 # post) n)"
    by (rule node_at_putChildren [OF n])
  \<comment> \<open>step 3: the right underline goes in front of the old one\<close>
  have t3: "splice_at P (k + 1 + length bs) [L] (putChildren P (pre @ L # bs @ u1 # post) t)
          = putChildren P (pre @ L # bs @ L # u1 # post) t"
    using prims_put(1) [OF n3, of "k + 1 + length bs" "[L]"] by (simp add: lp)
  have n4: "node_at (putChildren P (pre @ L # bs @ L # u1 # post) t) P
              = Some (setChildren (pre @ L # bs @ L # u1 # post) n)"
    by (rule node_at_putChildren [OF n])
  have nth4: "(pre @ L # bs @ L # u1 # post) ! (k + 2 + length bs) = u1"
    by (simp add: nth_append lp numeral_2_eq_2)
  have l4: "k + 2 + length bs < length (children (setChildren (pre @ L # bs @ L # u1 # post) n))"
    by (simp add: lp)
  have rest4: "childrenAt (putChildren P (pre @ L # bs @ L # u1 # post) t) (P @ [k + 2 + length bs]) = rest"
    using node_at_child [OF n4 l4] nth4 by (simp add: childrenAt_def u1_def)
  \<comment> \<open>step 4: the old underline is removed\<close>
  have d4: "take (k + 2 + length bs) (pre @ L # bs @ L # u1 # post)
              @ drop (max (k + 2 + length bs) (k + 3 + length bs)) (pre @ L # bs @ L # u1 # post)
            = pre @ L # bs @ L # post"
    by (simp add: lp max_def numeral_2_eq_2 numeral_3_eq_3)
  have t4: "removeRange P (k + 2 + length bs) (k + 3 + length bs)
              (putChildren P (pre @ L # bs @ L # u1 # post) t)
          = putChildren P (pre @ L # bs @ L # post) t"
    using prims_put(2) [OF n4, of "k + 2 + length bs" "k + 3 + length bs"] d4 by simp
  have n5: "node_at (putChildren P (pre @ L # bs @ L # post) t) P
              = Some (setChildren (pre @ L # bs @ L # post) n)"
    by (rule node_at_putChildren [OF n])
  \<comment> \<open>steps 5 and 6: the two new underlines receive the remaining children\<close>
  have s5: "slice 0 (i + 1) rest = take (Suc i) ucs"
    using ij j by (simp add: slice_def rest_def ucs_def)
  have s6: "slice (j - length bs) (length rest) rest = drop j ucs"
    using ij j by (simp add: slice_def rest_def ucs_def lb min_def)
  define L1 where "L1 = setChildren (take (Suc i) ucs) L"
  define R1 where "R1 = setChildren (drop j ucs) L"
  have l5: "k < length (children (setChildren (pre @ L # bs @ L # post) n))" by (simp add: lp)
  have n5L: "node_at (putChildren P (pre @ L # bs @ L # post) t) (P @ [k]) = Some L"
    using node_at_child [OF n5 l5] by (simp add: nth_append lp)
  have t5: "appendTo (P @ [k]) (take (Suc i) ucs) (putChildren P (pre @ L # bs @ L # post) t)
          = putChildren P (pre @ L1 # bs @ L # post) t"
    using prims_put(3) [OF n5L, of "take (Suc i) ucs"]
      putChildren_child [OF n5 l5, of "take (Suc i) ucs"]
    by (simp add: nth_append lp list_update_append Lc L1_def)
  have n6: "node_at (putChildren P (pre @ L1 # bs @ L # post) t) P
              = Some (setChildren (pre @ L1 # bs @ L # post) n)"
    by (rule node_at_putChildren [OF n])
  have l6: "k + 1 + length bs < length (children (setChildren (pre @ L1 # bs @ L # post) n))"
    by (simp add: lp)
  have nth6: "(pre @ L1 # bs @ L # post) ! (k + 1 + length bs) = L"
    by (simp add: nth_append lp)
  have upd6: "(pre @ L1 # bs @ L # post)[k + 1 + length bs := R1] = pre @ L1 # bs @ R1 # post"
    by (simp add: list_update_append lp)
  have n6R: "node_at (putChildren P (pre @ L1 # bs @ L # post) t) (P @ [k + 1 + length bs]) = Some L"
    using node_at_child [OF n6 l6] nth6 by simp
  have t6: "appendTo (P @ [k + 1 + length bs]) (drop j ucs) (putChildren P (pre @ L1 # bs @ L # post) t)
          = putChildren P (pre @ L1 # bs @ R1 # post) t"
    using prims_put(3) [OF n6R, of "drop j ucs"]
      putChildren_child [OF n6 l6, of "drop j ucs"] nth6 upd6
    by (simp add: Lc R1_def)
  \<comment> \<open>the contents\<close>
  have "contentsOf (pre @ L1 # bs @ R1 # post) =
      contentsOf pre @ (contentsOf (take (Suc i) ucs) @ contentsOf bs @ contentsOf (drop j ucs))
        @ contentsOf post"
    by (simp add: L1_def R1_def L_def)
  also have "contentsOf (take (Suc i) ucs) @ contentsOf bs @ contentsOf (drop j ucs) = contentsOf ucs"
    unfolding bs_def using contentsOf_take_slice_drop [of "Suc i" j ucs] ij by simp
  also have "contentsOf pre @ contentsOf ucs @ contentsOf post = contentsOf (children n)"
    using uu by (simp add: cs ucs_def leafContents_group')
  finally have fin: "contentsOf (pre @ L1 # bs @ R1 # post) = contentsOf (children n)" .
  show ?thesis
    unfolding Let_def
    unfolding L_def [symmetric] ucs_def [symmetric] bs_def [symmetric]
    unfolding t1 r2 t2 t3 rest4 t4 s5 s6 t5 t6
    by (rule leafContents_putChildren [OF n fin])
qed

lemma commonAncestor_SomeD:
  "commonAncestor a b = Some A \<Longrightarrow> A \<in> set (parentsOf a) \<and> A \<in> set (parentsOf b)"
  by (auto simp: commonAncestor_def find_Some_iff)

lemma parentsOf_nth: "m < length a \<Longrightarrow> parentsOf a ! m = take (length a - Suc m) a"
  by (simp add: parentsOf_def rev_nth)

lemma commonAncestor_branches:
  assumes ca: "commonAncestor a b = Some A"
    and na: "a \<noteq> take (length a) b" and nb: "b \<noteq> take (length b) a"
  shows "a ! length A \<noteq> b ! length A"
proof
  assume eq: "a ! length A = b ! length A"
  from ca obtain m where m: "m < length (parentsOf a)" "parentsOf a ! m = A"
    and inb: "A \<in> set (parentsOf b)"
    and mx: "\<forall>m'<m. parentsOf a ! m' \<notin> set (parentsOf b)"
    by (auto simp: commonAncestor_def find_Some_iff)
  have ma: "m < length a" using m(1) by (simp add: parentsOf_def)
  have A: "A = take (length a - Suc m) a" using parentsOf_nth [OF ma] m(2) by simp
  then have la: "length A = length a - Suc m" using ma by simp
  from inb obtain kb where kb: "kb < length b" "A = take kb b" by (auto simp: parentsOf_iff)
  then have lb: "length A < length b" by simp
  have la': "length A < length a" using la ma by simp
  have "take (Suc (length A)) a = take (length A) a @ [a ! length A]"
    using la' by (simp add: take_Suc_conv_app_nth)
  moreover have "take (Suc (length A)) b = take (length A) b @ [b ! length A]"
    using lb by (simp add: take_Suc_conv_app_nth)
  moreover have "take (length A) a = A" using A la by simp
  moreover have "take (length A) b = A" using kb by simp
  ultimately have tk: "take (Suc (length A)) a = take (Suc (length A)) b" using eq by simp
  show False
  proof (cases m)
    case 0
    then have "Suc (length A) = length a" using la ma by simp
    then have "a = take (length a) b" using tk by (metis take_all order_refl)
    with na show False by simp
  next
    case (Suc m')
    then have "m' < m" and m'a: "m' < length a" using ma by simp_all
    with mx have "parentsOf a ! m' \<notin> set (parentsOf b)" by blast
    moreover have "parentsOf a ! m' = take (Suc (length A)) a"
      using parentsOf_nth [OF m'a] la Suc ma by (simp add: Suc_diff_Suc)
    ultimately have "take (Suc (length A)) b \<notin> set (parentsOf b)" using tk by simp
    then have "\<not> Suc (length A) < length b" by (auto simp: parentsOf_iff)
    with lb have "Suc (length A) = length b" by simp
    then have "b = take (length b) a" using tk by (metis take_all order_refl)
    with nb show False by simp
  qed
qed

lemma chord_is_no_prefix:
  assumes "onlyGroupsHaveChildren t" and "node_at t a = Some c" and "isChord c"
    and "node_at t b = Some e" and "a \<noteq> b"
  shows "a \<noteq> take (length a) b"
proof
  assume p: "a = take (length a) b"
  then have b: "b = a @ drop (length a) b" by (metis append_take_drop_id)
  have "drop (length a) b \<noteq> []"
  proof
    assume "drop (length a) b = []"
    with b assms(5) show False by simp
  qed
  moreover have "node_at t (a @ drop (length a) b) = Some e" using b assms(4) by simp
  ultimately have "children c \<noteq> []"
    using assms(2) by (cases "drop (length a) b") (auto simp: node_at_append split: if_splits)
  from group_of_parent [OF assms(1,2) this] assms(3) show False
    by (auto simp: isChord_def isUnderline_def)
qed

lemma split_contents:
  assumes u: "node_at t common = Some u" and uu: "isUnderline u"
    and s0: "s0 = common @ [a]" and e0: "e0 = common @ [b]"
    and a: "a < length (children u)" and b: "b < length (children u)" and ab: "a \<noteq> b"
    and r: "removeUnderline_split t common s0 e0 = Inr t'"
  shows "leafContents t' = leafContents t"
proof -
  from r have ne: "common \<noteq> []"
    by (auto simp: removeUnderline_split_def Let_def split: if_splits prod.splits)
  from node_at_parent [OF u ne] obtain n where n: "node_at t (butlast common) = Some n"
    and k: "last common < length (children n)" and un: "children n ! last common = u"
    by blast
  define P where "P = butlast common"
  define k where "k = last common"
  have cm: "common = P @ [k]" using ne by (simp add: P_def k_def)
  define i where "i = min a b"
  define j where "j = max a b"
  have ij: "i < j" and j: "j < length (children u)"
    using a b ab by (auto simp: i_def j_def)
  define pure where "pure = hasType t UnderlinePure common"
  have "t' =
    (let betweenNodes = slice (Suc i) j (children u);
         leftUnderline = createUnderlineNode pure;
         rightUnderline = createUnderlineNode pure;
         m = length betweenNodes;
         t1 = splice_at P k [leftUnderline] t;
         t2 = splice_at P (k + 1) betweenNodes (removeRange (P @ [k + 1]) (Suc i) j t1);
         t3 = splice_at P (k + 1 + m) [rightUnderline] t2;
         rest = childrenAt t3 (P @ [k + 2 + m]);
         t4 = removeRange P (k + 2 + m) (k + 3 + m) t3;
         t5 = appendTo (P @ [k]) (slice 0 (i + 1) rest) t4;
         t6 = appendTo (P @ [k + 1 + m]) (slice (j - m) (length rest) rest) t5
     in t6)"
  proof (cases "b < a")
    case True
    then have "i = b" "j = a" by (simp_all add: i_def j_def)
    with r True show ?thesis
      by (simp add: removeUnderline_split_def s0 e0 getSiblingBetween_def childrenAt_Some [OF u]
          Let_def pure_def P_def [symmetric] k_def [symmetric] cm [symmetric] split: if_splits)
  next
    case False
    then have "i = a" "j = b" by (simp_all add: i_def j_def)
    with r False show ?thesis
      by (simp add: removeUnderline_split_def s0 e0 getSiblingBetween_def childrenAt_Some [OF u]
          Let_def pure_def P_def [symmetric] k_def [symmetric] cm [symmetric] split: if_splits)
  qed
  then show ?thesis
    using split_core [OF n [folded P_def] k [folded k_def] un [folded k_def] uu ij j, of pure]
    by simp
qed

lemma removeUnderline_contents:
  assumes wt: "onlyGroupsHaveChildren t" and r: "removeUnderlineFromChordToNext_body p t = Inr t'"
  shows "leafContents t' = leafContents t"
proof -
  from r obtain c q common startNode endNode where c: "node_at t p = Some c" and ch: "isChord c"
    and f: "findNextNodeByType t p (ntype c) = Some q"
    and ca: "commonAncestor p q = Some common"
    and hu: "hasType t Underline common \<or> hasType t UnderlinePure common"
    and ps: "parentUntil p common = Some startNode"
    and pe: "parentUntil q common = Some endNode"
    by (auto simp: removeUnderlineFromChordToNext_body_def Let_def
        split: option.splits if_splits prod.splits)
  from hasType_underlineD [OF hu] obtain u where u: "node_at t common = Some u"
    and uu: "isUnderline u" by blast
  from findNext_SomeD [OF f] obtain e where qp: "q \<noteq> p" and e: "node_at t q = Some e"
    and te: "ntype e = ntype c" by blast
  consider (dissolve) "removeUnderline_dissolve t common = Inr t'"
    | (tail) "removeUnderline_shrinkTail t common startNode = Inr t'"
    | (head) "removeUnderline_shrinkHead t common endNode = Inr t'"
    | (split) "removeUnderline_split t common startNode endNode = Inr t'"
    using r c f ca ps pe
    by (auto simp: removeUnderlineFromChordToNext_body_def Let_def
        split: option.splits if_splits prod.splits)
  then show ?thesis
  proof cases
    case dissolve
    from dissolve_contents [OF u uu dissolve] show ?thesis .
  next
    case tail
    from shrinkTail_contents [OF u tail] show ?thesis .
  next
    case head
    from shrinkHead_contents [OF u uu head] show ?thesis .
  next
    case split
    define a where "a = p ! length common"
    define b where "b = q ! length common"
    note ds = parentUntil_SomeD [OF ps, folded a_def]
    note de = parentUntil_SomeD [OF pe, folded b_def]
    from parentUntil_valid [OF ps c, folded a_def] u have a: "a < length (children u)" by auto
    from parentUntil_valid [OF pe e, folded b_def] u have b: "b < length (children u)" by auto
    have che: "isChord e" using ch te by (simp add: isChord_def)
    have "p \<noteq> take (length p) q"
      by (rule chord_is_no_prefix [OF wt c ch e]) (use qp in simp)
    moreover have "q \<noteq> take (length q) p"
      by (rule chord_is_no_prefix [OF wt e che c qp])
    ultimately have ab: "a \<noteq> b"
      using commonAncestor_branches [OF ca] by (simp add: a_def b_def)
    from split_contents [OF u uu ds(2) de(2) a b ab split] show ?thesis .
  qed
qed

lemma runAtomOperation_onRoot_Inl:
  assumes "0 \<le> count s" and "f (root s) = Inl e"
  shows "fst (runAtomOperation (onRoot f) s) = Inl e"
  using runAtomOperation_frame [of "onRoot f" s "Inl e" "beginOperation s"] assms
  by (simp add: onRoot_def beginOperation_def)

lemma runAtomOperation_onRoot_success:
  assumes "0 \<le> count s" and "fst (runAtomOperation (onRoot f) s) = Inr v"
  shows "f (root s) = Inr (root (snd (runAtomOperation (onRoot f) s)))"
proof (cases "f (root s)")
  case (Inl e)
  from runAtomOperation_onRoot_Inl [of s f e] assms Inl show ?thesis by simp
next
  case (Inr r)
  from runAtomOperation_onRoot [of s f r] assms(1) Inr show ?thesis by simp
qed

text \<open>
  C4. In a tree where only the root and the underlines have children, every successful
  \<^verbatim>\<open>addUnderlineForChord\<close> (wrap, extend forward, extend backward, merge) and every
  successful \<^verbatim>\<open>removeUnderlineFromChordToNext\<close> (dissolve, shrink tail, shrink head,
  split) leaves the flattened leaf contents of the tree as they were.
\<close>

theorem underline_commands_keep_leaf_contents:
  assumes "op = addUnderlineForChord chordNode \<or> op = removeUnderlineFromChordToNext chordNode"
    and "0 \<le> count s" and "onlyGroupsHaveChildren (root s)" and "fst (op s) = Inr ()"
  shows "leafContents (root (snd (op s))) = leafContents (root s)"
  using assms(1)
proof
  assume o: "op = addUnderlineForChord chordNode"
  from runAtomOperation_onRoot_success [OF assms(2), of "addUnderlineForChord_body chordNode" "()"]
    assms(4) o
  have "addUnderlineForChord_body chordNode (root s) = Inr (root (snd (op s)))"
    by (simp add: addUnderlineForChord_def)
  from addUnderline_contents [OF assms(3) this] show ?thesis .
next
  assume o: "op = removeUnderlineFromChordToNext chordNode"
  from runAtomOperation_onRoot_success [OF assms(2), of "removeUnderlineFromChordToNext_body chordNode" "()"]
    assms(4) o
  have "removeUnderlineFromChordToNext_body chordNode (root s) = Inr (root (snd (op s)))"
    by (simp add: removeUnderlineFromChordToNext_def)
  from removeUnderline_contents [OF assms(3) this] show ?thesis .
qed

lemma split_sheet4:
  "removeUnderlineFromChordToNext_body [1, 2] sheet4 = Inr sheet4_split"
  by (simp add: sheet4_def sheet4_split_def underline_eval numeral_2_eq_2 numeral_3_eq_3)

theorem underline_commands_keep_leaf_contents_witness:
  "onlyGroupsHaveChildren sheet4 \<and>
   removeUnderlineFromChordToNext [1, 2] (newSheetEditorCore (0::int) sheet4) =
     (Inr (), addHistory ((newSheetEditorCore 0 sheet4)\<lparr>root := sheet4_split\<rparr>)) \<and>
   leafContents sheet4_split = leafContents sheet4 \<and>
   leafContents sheet4 = ''paxbyzcdq''"
proof -
  let ?s = "newSheetEditorCore (0::int) sheet4"
  have w: "onlyGroupsHaveChildren (root ?s)"
    by (simp add: onlyGroupsHaveChildren_def sheet4_def newSheetEditorCore_def isUnderline_def)
  have c: "0 \<le> count ?s" by (simp add: newSheetEditorCore_def)
  have r: "removeUnderlineFromChordToNext [1, 2] ?s =
     (Inr (), addHistory (?s\<lparr>root := sheet4_split\<rparr>))"
    unfolding removeUnderlineFromChordToNext_def
    using runAtomOperation_onRoot [of ?s "removeUnderlineFromChordToNext_body [1, 2]" sheet4_split]
      split_sheet4
    by (simp add: newSheetEditorCore_def)
  have l: "leafContents sheet4 = ''paxbyzcdq''" by (simp add: sheet4_def)
  show ?thesis
    using underline_commands_keep_leaf_contents
      [of "removeUnderlineFromChordToNext [1, 2]" "[1, 2]" ?s, OF _ c w] r w l
    by (simp add: newSheetEditorCore_def)
qed

section \<open>Removing an underline over three chords\<close>


lemma paths_Cons: "\<exists>rest. paths t = [] # rest"
  by (cases t) simp

lemma paths_leaf: "children x = [] \<Longrightarrow> paths x = [[]]"
  by (cases x) simp

lemma paths_from_split:
  "i < length cs \<Longrightarrow>
   paths_from k cs = paths_from k (take i cs) @ map ((#) (k + i)) (paths (cs ! i))
                       @ paths_from (Suc (k + i)) (drop (Suc i) cs)"
proof (induction cs arbitrary: i k)
  case Nil
  then show ?case by simp
next
  case (Cons c cs)
  show ?case
  proof (cases i)
    case 0
    then show ?thesis by simp
  next
    case (Suc i')
    then have "i' < length cs" using Cons.prems by simp
    from Cons.IH [OF this, of "Suc k"] show ?thesis using Suc by simp
  qed
qed

lemma paths_from_take_heads:
  "q \<in> set (paths_from k (take i cs)) \<Longrightarrow> q \<noteq> [] \<and> hd q < k + i"
proof (induction cs arbitrary: i k)
  case Nil
  then show ?case by simp
next
  case (Cons c cs)
  show ?case
  proof (cases i)
    case 0
    then show ?thesis using Cons.prems by simp
  next
    case (Suc i')
    with Cons.prems have "q \<in> (#) k ` set (paths c) \<or> q \<in> set (paths_from (Suc k) (take i' cs))"
      by auto
    then show ?thesis
    proof
      assume "q \<in> (#) k ` set (paths c)"
      then show ?thesis using Suc by auto
    next
      assume "q \<in> set (paths_from (Suc k) (take i' cs))"
      from Cons.IH [OF this] show ?thesis using Suc by simp
    qed
  qed
qed

text \<open>In document order a leaf is directly followed by its next sibling.\<close>

lemma next_after_leaf:
  "node_at t P = Some u \<Longrightarrow> Suc i < length (children u) \<Longrightarrow> children (children u ! i) = [] \<Longrightarrow>
   \<exists>rest. dropWhile (\<lambda>q. q \<noteq> P @ [i]) (paths t) = (P @ [i]) # (P @ [Suc i]) # rest"
proof (induction P arbitrary: t)
  case Nil
  then have tu: "t = u" by simp
  obtain ty co ch cs where t: "t = SheetNode ty co ch cs" by (cases t)
  have i: "i < length cs" and si: "Suc i < length cs" and leaf: "children (cs ! i) = []"
    using Nil tu t by auto
  let ?A = "paths_from 0 (take i cs)"
  let ?C = "paths_from (Suc i) (drop (Suc i) cs)"
  have sp: "paths_from 0 cs = ?A @ [[i]] @ ?C"
    using paths_from_split [OF i, of 0] paths_leaf [OF leaf] by simp
  have A: "\<forall>q\<in>set ?A. q \<noteq> [i]"
    using paths_from_take_heads [of _ 0 i cs] by fastforce
  have "drop (Suc i) cs = cs ! Suc i # drop (Suc (Suc i)) cs"
    using si by (simp add: Cons_nth_drop_Suc)
  moreover obtain r where "paths (cs ! Suc i) = [] # r" using paths_Cons by blast
  ultimately obtain rest where C: "?C = [Suc i] # rest" by simp
  have "dropWhile (\<lambda>q. q \<noteq> [i]) (paths t) = dropWhile (\<lambda>q. q \<noteq> [i]) (?A @ [[i]] @ ?C)"
    using t sp by simp
  also have "\<dots> = [i] # ?C"
    using A by (simp add: dropWhile_append)
  finally show ?case using C by simp
next
  case (Cons j P)
  obtain ty co ch cs where t: "t = SheetNode ty co ch cs" by (cases t)
  from Cons.prems(1) t have j: "j < length cs" and n: "node_at (cs ! j) P = Some u"
    by (auto split: if_splits)
  from Cons.IH [OF n Cons.prems(2,3)] obtain rest where
    ih: "dropWhile (\<lambda>q. q \<noteq> P @ [i]) (paths (cs ! j)) = (P @ [i]) # (P @ [Suc i]) # rest"
    by blast
  let ?A = "paths_from 0 (take j cs)"
  let ?B = "map ((#) j) (paths (cs ! j))"
  let ?C = "paths_from (Suc j) (drop (Suc j) cs)"
  have sp: "paths_from 0 cs = ?A @ ?B @ ?C"
    using paths_from_split [OF j, of 0] by simp
  have A: "\<forall>q\<in>set ?A. q \<noteq> j # P @ [i]"
    using paths_from_take_heads [of _ 0 j cs] by fastforce
  have "dropWhile (\<lambda>q. q \<noteq> j # P @ [i]) ?B = map ((#) j) (dropWhile (\<lambda>q. q \<noteq> P @ [i]) (paths (cs ! j)))"
    by (simp add: dropWhile_map comp_def)
  then have B: "dropWhile (\<lambda>q. q \<noteq> j # P @ [i]) ?B = (j # P @ [i]) # (j # P @ [Suc i]) # map ((#) j) rest"
    using ih by simp
  have ex: "\<not> (\<forall>x\<in>set ?B. x \<noteq> j # P @ [i])"
  proof
    assume "\<forall>x\<in>set ?B. x \<noteq> j # P @ [i]"
    then have "dropWhile (\<lambda>q. q \<noteq> j # P @ [i]) ?B = []"
      by (simp only: dropWhile_eq_Nil_conv)
    with B show False by simp
  qed
  have "dropWhile (\<lambda>q. q \<noteq> j # P @ [i]) (paths t) = dropWhile (\<lambda>q. q \<noteq> j # P @ [i]) (?A @ ?B @ ?C)"
    using t sp by simp
  also have "\<dots> = dropWhile (\<lambda>q. q \<noteq> j # P @ [i]) (?B @ ?C)"
    using A by (simp add: dropWhile_append)
  also have "\<dots> = dropWhile (\<lambda>q. q \<noteq> j # P @ [i]) ?B @ ?C"
    using ex by (simp only: dropWhile_append if_False)
  finally show ?case using B by simp
qed

lemma findNext_after_leaf:
  assumes "node_at t P = Some u" and "Suc i < length (children u)"
    and "children (children u ! i) = []" and "ntype (children u ! Suc i) = ty"
  shows "findNextNodeByType t (P @ [i]) ty = Some (P @ [Suc i])"
proof -
  from next_after_leaf [OF assms(1,2,3)] obtain rest where
    "dropWhile (\<lambda>q. q \<noteq> P @ [i]) (paths t) = (P @ [i]) # (P @ [Suc i]) # rest" by blast
  moreover have "hasType t ty (P @ [Suc i])"
    using node_at_child [OF assms(1,2)] assms(4) by (simp add: hasType_def)
  ultimately show ?thesis by (simp add: findNextNodeByType_def)
qed

lemma parentsOf_snoc: "parentsOf (p @ [x]) = p # parentsOf p"
  by (simp add: parentsOf_def)

lemma commonAncestor_siblings: "commonAncestor (p @ [x]) (p @ [y]) = Some p"
  by (simp add: commonAncestor_def parentsOf_snoc)

lemma parentUntil_child: "parentUntil (p @ [x]) p = Some (p @ [x])"
  by (simp add: parentUntil_def parentsOf_snoc)


text \<open>The tree surgery of the two shrink branches, as one replacement of children.\<close>

lemma shrinkHead_surgery:
  assumes u: "node_at t (P @ [k]) = Some u" and n: "node_at t P = Some n"
  shows "splice_at P k (slice 0 j (children u)) (removeRange (P @ [k]) 0 j t) =
         putChildren P (take k (children n) @ take j (children u)
                          @ [setChildren (drop j (children u)) u] @ drop (Suc k) (children n)) t"
proof -
  from node_at_childD [OF u] n have k: "k < length (children n)" and un: "children n ! k = u"
    by auto
  let ?cs = "children n" and ?ucs = "children u"
  let ?u1 = "setChildren (drop j ?ucs) u"
  have sl: "slice 0 j ?ucs = take j ?ucs" by (simp add: slice_def)
  have "removeRange (P @ [k]) 0 j t = putChildren (P @ [k]) (drop j ?ucs) t"
    using prims_put(2) [OF u, of 0 j] by simp
  also have "\<dots> = putChildren P (?cs[k := ?u1]) t"
    using putChildren_child [OF n k, of "drop j ?ucs"] un by simp
  finally have t1: "removeRange (P @ [k]) 0 j t = putChildren P (?cs[k := ?u1]) t" .
  have n1: "node_at (putChildren P (?cs[k := ?u1]) t) P = Some (setChildren (?cs[k := ?u1]) n)"
    by (rule node_at_putChildren [OF n])
  have c2: "take k (?cs[k := ?u1]) @ take j ?ucs @ drop k (?cs[k := ?u1]) =
            take k ?cs @ take j ?ucs @ [?u1] @ drop (Suc k) ?cs"
    using k by (simp add: drop_update_cancel Cons_nth_drop_Suc [symmetric] flip: upd_conv_take_nth_drop)
  show ?thesis
    unfolding sl t1 using prims_put(1) [OF n1, of k "take j ?ucs"] c2 by simp
qed

lemma shrinkTail_surgery:
  assumes u: "node_at t (P @ [k]) = Some u" and n: "node_at t P = Some n"
  shows "splice_at P (Suc k) (slice (Suc i) (length (children u)) (children u))
           (removeRange (P @ [k]) (Suc i) (length (children u)) t) =
         putChildren P (take k (children n) @ [setChildren (take (Suc i) (children u)) u]
                          @ drop (Suc i) (children u) @ drop (Suc k) (children n)) t"
proof -
  from node_at_childD [OF u] n have k: "k < length (children n)" and un: "children n ! k = u"
    by auto
  let ?cs = "children n" and ?ucs = "children u"
  let ?u1 = "setChildren (take (Suc i) ?ucs) u"
  have sl: "slice (Suc i) (length ?ucs) ?ucs = drop (Suc i) ?ucs" by (simp add: slice_def)
  have "removeRange (P @ [k]) (Suc i) (length ?ucs) t = putChildren (P @ [k]) (take (Suc i) ?ucs) t"
    using prims_put(2) [OF u, of "Suc i" "length ?ucs"] by (simp add: max_def)
  also have "\<dots> = putChildren P (?cs[k := ?u1]) t"
    using putChildren_child [OF n k, of "take (Suc i) ?ucs"] un by simp
  finally have t1: "removeRange (P @ [k]) (Suc i) (length ?ucs) t = putChildren P (?cs[k := ?u1]) t" .
  have n1: "node_at (putChildren P (?cs[k := ?u1]) t) P = Some (setChildren (?cs[k := ?u1]) n)"
    by (rule node_at_putChildren [OF n])
  have c2: "take (Suc k) (?cs[k := ?u1]) @ drop (Suc i) ?ucs @ drop (Suc k) (?cs[k := ?u1]) =
            take k ?cs @ [?u1] @ drop (Suc i) ?ucs @ drop (Suc k) ?cs"
    using k by (simp add: take_Suc_conv_app_nth)
  show ?thesis
    unfolding sl t1 using prims_put(1) [OF n1, of "Suc k" "drop (Suc i) ?ucs"] c2 by simp
qed

lemma remove_in_three_chords:
  assumes u: "node_at t U = Some (SheetNode uty uco uch [c1, c2, c3])"
    and U: "U = P @ [k]" and n: "node_at t P = Some n"
    and uty: "uty = Underline \<or> uty = UnderlinePure" and ty: "ty = Chord \<or> ty = ChordPure"
    and c1: "c1 = SheetNode ty a1 x1 []" and c2: "c2 = SheetNode ty a2 x2 []"
    and c3: "c3 = SheetNode ty a3 x3 []"
  shows "removeUnderlineFromChordToNext_body (U @ [0]) t =
           Inr (putChildren P (take k (children n) @ [c1, SheetNode uty uco uch [c2, c3]]
                                 @ drop (Suc k) (children n)) t)"
    and "removeUnderlineFromChordToNext_body (U @ [1]) t =
           Inr (putChildren P (take k (children n) @ [SheetNode uty uco uch [c1, c2], c3]
                                 @ drop (Suc k) (children n)) t)"
proof -
  let ?u = "SheetNode uty uco uch [c1, c2, c3]"
  have hu: "hasType t Underline U \<or> hasType t UnderlinePure U"
    using u uty by (auto simp: hasType_def)
  have cu: "childrenAt t U = [c1, c2, c3]" using u by (simp add: childrenAt_def)
  have n0: "node_at t (U @ [0]) = Some c1" and n1: "node_at t (U @ [1]) = Some c2"
    and n2: "node_at t (U @ [2]) = Some c3"
    using node_at_child [OF u, of 0] node_at_child [OF u, of 1] node_at_child [OF u, of 2]
    by simp_all
  have f0: "findNextNodeByType t (U @ [0]) ty = Some (U @ [1])"
    using findNext_after_leaf [OF u, of 0 ty] c1 c2 by simp
  have f1: "findNextNodeByType t (U @ [1]) ty = Some (U @ [2])"
    using findNext_after_leaf [OF u, of 1 ty] c2 c3 by (simp add: numeral_2_eq_2)
  have ht: "hasType t Chord (U @ [1]) \<or> hasType t ChordPure (U @ [1])
              \<or> hasType t Underline (U @ [1]) \<or> hasType t UnderlinePure (U @ [1])"
    using n1 ty c2 by (auto simp: hasType_def)
  have ai: "anchorIndexOf [c1, c2, c3] 1 = 1"
    using ty c1 c2 c3 by (auto simp: anchorIndexOf_def isAnchor_def isChord_def)
  have an: "filter isAnchor [c1, c2, c3] = [c1, c2, c3]"
    using ty c1 c2 c3 by (auto simp: isAnchor_def isChord_def)
  have ch1: "isChord c1" and ch2: "isChord c2" using ty c1 c2 by (auto simp: isChord_def)
  have Une: "U \<noteq> []" and bl: "butlast U = P" and la: "last U = k" using U by simp_all
  have "removeUnderlineFromChordToNext_body (U @ [0]) t =
          Inr (splice_at P k (slice 0 1 (children ?u)) (removeRange U 0 1 t))"
    using f0 hu ht ai ch1 c1 Une
    by (simp add: removeUnderlineFromChordToNext_body_def n0 cu parentOf_def
        commonAncestor_siblings parentUntil_child removeUnderline_shrinkHead_def Let_def bl la)
  also have "\<dots> = Inr (putChildren P (take k (children n) @ [c1, SheetNode uty uco uch [c2, c3]]
                                 @ drop (Suc k) (children n)) t)"
    using shrinkHead_surgery [OF u [unfolded U] n, of 1] by (simp add: setChildren_def U)
  finally show "removeUnderlineFromChordToNext_body (U @ [0]) t =
           Inr (putChildren P (take k (children n) @ [c1, SheetNode uty uco uch [c2, c3]]
                                 @ drop (Suc k) (children n)) t)" .
  have "removeUnderlineFromChordToNext_body (U @ [1]) t =
          Inr (splice_at P (Suc k) (slice (Suc 1) (length (children ?u)) (children ?u))
                 (removeRange U (Suc 1) (length (children ?u)) t))"
    using f1 hu ai an ch2 c2 Une n1
    by (simp add: removeUnderlineFromChordToNext_body_def cu parentOf_def
        commonAncestor_siblings parentUntil_child removeUnderline_shrinkTail_def Let_def bl la
        numeral_2_eq_2)
  also have "\<dots> = Inr (putChildren P (take k (children n) @ [SheetNode uty uco uch [c1, c2], c3]
                                 @ drop (Suc k) (children n)) t)"
    using shrinkTail_surgery [OF u [unfolded U] n, of 1] by (simp add: setChildren_def U)
  finally show "removeUnderlineFromChordToNext_body (U @ [1]) t =
           Inr (putChildren P (take k (children n) @ [SheetNode uty uco uch [c1, c2], c3]
                                 @ drop (Suc k) (children n)) t)" .
qed

text \<open>
  C8 (as amended). Let the tree hold an underline, with a parent, whose children are exactly
  three chords of one purity. \<^verbatim>\<open>removeUnderlineFromChordToNext\<close> anchored at the first
  chord takes the shrink-head branch: the first chord moves out in front of the
  underline, which keeps the second and the third chord. Anchored at the second chord it
  takes the shrink-tail branch: the third chord moves out behind the underline, which
  keeps the first and the second chord.
\<close>

theorem removeUnderline_in_three_chords:
  assumes "0 \<le> count s"
    and "node_at (root s) U = Some (SheetNode uty uco uch [c1, c2, c3])" and "U = P @ [k]"
    and "uty = Underline \<or> uty = UnderlinePure" and "ty = Chord \<or> ty = ChordPure"
    and "c1 = SheetNode ty a1 x1 []" and "c2 = SheetNode ty a2 x2 []"
    and "c3 = SheetNode ty a3 x3 []"
  shows "fst (removeUnderlineFromChordToNext (U @ [0]) s) = Inr () \<and>
         root (snd (removeUnderlineFromChordToNext (U @ [0]) s)) =
           putChildren P (take k (childrenAt (root s) P) @ [c1, SheetNode uty uco uch [c2, c3]]
                            @ drop (Suc k) (childrenAt (root s) P)) (root s) \<and>
         fst (removeUnderlineFromChordToNext (U @ [1]) s) = Inr () \<and>
         root (snd (removeUnderlineFromChordToNext (U @ [1]) s)) =
           putChildren P (take k (childrenAt (root s) P) @ [SheetNode uty uco uch [c1, c2], c3]
                            @ drop (Suc k) (childrenAt (root s) P)) (root s)"
proof -
  from assms(2,3) have "node_at (root s) (P @ [k]) = Some (SheetNode uty uco uch [c1, c2, c3])"
    by simp
  from node_at_prefix [OF this] obtain n where n: "node_at (root s) P = Some n" by blast
  note r = remove_in_three_chords [OF assms(2,3) n assms(4-8)]
  show ?thesis
    unfolding removeUnderlineFromChordToNext_def
    using runAtomOperation_onRoot [of s "removeUnderlineFromChordToNext_body (U @ [0])", OF assms(1) r(1)]
      runAtomOperation_onRoot [of s "removeUnderlineFromChordToNext_body (U @ [1])", OF assms(1) r(2)]
    by (simp add: childrenAt_Some [OF n])
qed

theorem removeUnderline_in_three_chords_witness:
  "fst (removeUnderlineFromChordToNext [0, 0] (newSheetEditorCore (0::int) sheet3)) = Inr () \<and>
   root (snd (removeUnderlineFromChordToNext [0, 0] (newSheetEditorCore (0::int) sheet3))) = sheet3_head \<and>
   fst (removeUnderlineFromChordToNext [0, 1] (newSheetEditorCore (0::int) sheet3)) = Inr () \<and>
   root (snd (removeUnderlineFromChordToNext [0, 1] (newSheetEditorCore (0::int) sheet3))) = sheet3_tail"
  using removeUnderline_in_three_chords [of "newSheetEditorCore (0::int) sheet3" "[0]" Underline "[]" None
      "SheetNode Chord ''a'' (Some 1) []" "SheetNode Chord ''b'' (Some 2) []"
      "SheetNode Chord ''c'' (Some 3) []" "[]" 0 Chord "''a''" "Some 1" "''b''" "Some 2" "''c''" "Some 3"]
  by (simp add: newSheetEditorCore_def sheet3_def sheet3_head_def sheet3_tail_def putChildren_def
      childrenAt_def setChildren_def)

text \<open>
  C8 as stated fails: for the underline over three chords directly below the root, the
  removal anchored at the first chord succeeds and leaves the first chord followed by an
  underline over the second and the third chord, not an underline over the first two
  chords followed by the third.
\<close>

theorem removeUnderline_at_first_chord_shrinks_head:
  "removeUnderlineFromChordToNext [0, 0] (newSheetEditorCore (0::int) sheet3) =
     (Inr (), addHistory ((newSheetEditorCore 0 sheet3)\<lparr>root := sheet3_head\<rparr>)) \<and>
   sheet3_head \<noteq> sheet3_tail"
proof -
  have b: "removeUnderlineFromChordToNext_body [0, 0] sheet3 = Inr sheet3_head"
    by (simp add: sheet3_def sheet3_head_def underline_eval)
  have "removeUnderlineFromChordToNext [0, 0] (newSheetEditorCore (0::int) sheet3) =
     (Inr (), addHistory ((newSheetEditorCore 0 sheet3)\<lparr>root := sheet3_head\<rparr>))"
    unfolding removeUnderlineFromChordToNext_def
    using runAtomOperation_onRoot [of "newSheetEditorCore (0::int) sheet3"
        "removeUnderlineFromChordToNext_body [0, 0]" sheet3_head] b
    by (simp add: newSheetEditorCore_def)
  then show ?thesis by (simp add: sheet3_head_def sheet3_tail_def)
qed

section \<open>Updating the content of a node\<close>

lemma setContent_sel [simp]:
  "ntype (setContent x n) = ntype n" "content (setContent x n) = x"
  "chord (setContent x n) = chord n" "children (setContent x n) = children n"
  by (simp_all add: setContent_def)

lemma shape_update_setContent:
  "map_option shapeOf (node_at (update_at p (setContent x) t) q) = map_option shapeOf (node_at t q)"
proof (induction p arbitrary: t q)
  case Nil
  then show ?case by (cases q) (simp_all add: shapeOf_def)
next
  case (Cons i p)
  show ?case
  proof (cases q)
    case Nil
    then show ?thesis by (simp add: shapeOf_def)
  next
    case (Cons j q')
    then show ?thesis using Cons.IH [of "children t ! i" q']
      by (auto simp: nth_list_update)
  qed
qed

lemma insertAfter_target_shape:
  "\<forall>q. map_option shapeOf (node_at t' q) = map_option shapeOf (node_at t q) \<Longrightarrow>
   insertAfter_target t' p = insertAfter_target t p"
proof (induction t p rule: insertAfter_target.induct)
  case (1 t p)
  note sh = "1.prems" [rule_format]
  show ?case
  proof (cases "p = []")
    case True
    then show ?thesis by (simp add: insertAfter_target.simps)
  next
    case False
    show ?thesis
    proof (cases "node_at t (butlast p)")
      case None
      then have "node_at t' (butlast p) = None"
        using sh [of "butlast p"] by simp
      with None False show ?thesis by (simp add: insertAfter_target.simps [of _ p])
    next
      case (Some par)
      then obtain par' where p': "node_at t' (butlast p) = Some par'" and s: "shapeOf par' = shapeOf par"
        using sh [of "butlast p"] by (cases "node_at t' (butlast p)") auto
      from s have same: "length (children par') = length (children par)" "isUnderline par' = isUnderline par"
        by (simp_all add: shapeOf_def isUnderline_def)
      show ?thesis
      proof (cases "last p < length (children par) \<and> Suc (last p) = length (children par) \<and> isUnderline par")
        case True
        then have "insertAfter_target t' (butlast p) = insertAfter_target t (butlast p)"
          using "1.IH" [OF False Some] "1.prems" by simp
        then show ?thesis
          using False Some p' same True
          by (subst insertAfter_target.simps, subst (2) insertAfter_target.simps) simp
      next
        case False2: False
        then show ?thesis
          using False Some p' same
          by (subst insertAfter_target.simps, subst (2) insertAfter_target.simps) auto
      qed
    qed
  qed
qed


lemma insertAfter_target_SomeD:
  "insertAfter_target t p = Inr tp \<Longrightarrow>
   tp \<noteq> [] \<and> (\<exists>r. p = tp @ r) \<and>
   (\<exists>par. node_at t (butlast tp) = Some par \<and> last tp < length (children par))"
proof (induction t p rule: insertAfter_target.induct)
  case (1 t p)
  from "1.prems" have ne: "p \<noteq> []"
    by (subst (asm) insertAfter_target.simps) (auto split: if_splits)
  from "1.prems" ne obtain par where par: "node_at t (butlast p) = Some par"
    and l: "last p < length (children par)"
    by (subst (asm) insertAfter_target.simps) (auto split: if_splits option.splits)
  show ?case
  proof (cases "Suc (last p) = length (children par) \<and> isUnderline par")
    case True
    with "1.prems" ne par l have r: "insertAfter_target t (butlast p) = Inr tp"
      by (subst (asm) insertAfter_target.simps) simp
    from "1.IH" [OF ne par _ _ r] l True
    obtain q where "tp \<noteq> []" "butlast p = tp @ q"
      "\<exists>par. node_at t (butlast tp) = Some par \<and> last tp < length (children par)"
      by auto
    moreover from this ne have "p = tp @ (q @ [last p])"
      by (metis append.assoc append_butlast_last_id)
    ultimately show ?thesis by blast
  next
    case False
    with "1.prems" ne par l have "tp = p"
      by (subst (asm) insertAfter_target.simps) auto
    with ne par l show ?thesis by auto
  qed
qed

lemma node_at_update_at_below:
  "node_at (update_at P f t) (P @ q) = (case node_at t P of None \<Rightarrow> None | Some n \<Rightarrow> node_at (f n) q)"
  by (induction P arbitrary: t) (auto split: option.splits)

lemma node_at_splice_before:
  assumes "node_at t P = Some n" and "i < length (children n)" and "i < k"
  shows "node_at (splice_at P k ns t) (P @ i # r) = node_at t (P @ i # r)"
proof -
  have "node_at (splice_at P k ns t) (P @ i # r) = node_at (children n ! i) r"
    using assms by (auto simp: splice_at_def node_at_update_at_below nth_append min_def)
  moreover have "node_at t (P @ i # r) = node_at (children n ! i) r"
    using assms by (simp add: node_at_append)
  ultimately show ?thesis by simp
qed

lemma updateContent_body_empty: "isl (fst (updateContent_body node [] s))"
  by (simp add: updateContent_body_def split: option.splits)

lemma run_failure:
  "isl (fst (func (beginOperation s))) \<Longrightarrow> isl (fst (runAtomOperation func s))"
  by (auto simp: runAtomOperation_def run_def endOperation_def Let_def split: prod.splits)

lemma insertionPoint_Nil: "insertionPoint t [] = Some []"
  by (simp add: insertionPoint_def endsUnderline_def parentsOf_def)

lemma insertionPoint_snoc:
  "insertionPoint t (q @ [x]) =
     (if endsUnderline t (q @ [x]) then insertionPoint t q else Some (q @ [x]))"
proof (cases q rule: rev_cases)
  case Nil
  then show ?thesis by (simp add: insertionPoint_def parentsOf_def endsUnderline_def)
next
  case (snoc q' y)
  then show ?thesis
    using parentsOf_snoc [of q x] parentsOf_snoc [of q' y] by (simp add: insertionPoint_def)
qed

text \<open>
  The insertion point is a prefix of the path that does not end an underline, and every
  longer prefix of the path, the path itself included, ends an underline.
\<close>

lemma insertionPoint_SomeD:
  "insertionPoint t p = Some target \<Longrightarrow>
   take (length target) p = target \<and> \<not> endsUnderline t target \<and>
   (\<forall>k. length target < k \<and> k \<le> length p \<longrightarrow> endsUnderline t (take k p))"
proof (induction p arbitrary: target rule: rev_induct)
  case Nil
  then show ?case by (auto simp: insertionPoint_Nil endsUnderline_def)
next
  case (snoc x q)
  show ?case
  proof (cases "endsUnderline t (q @ [x])")
    case False
    with snoc.prems have "target = q @ [x]" by (simp add: insertionPoint_snoc)
    with False show ?thesis by auto
  next
    case True
    with snoc.prems have ip: "insertionPoint t q = Some target" by (simp add: insertionPoint_snoc)
    from snoc.IH [OF ip] have pre: "take (length target) q = target"
      and ne: "\<not> endsUnderline t target"
      and all: "\<forall>k. length target < k \<and> k \<le> length q \<longrightarrow> endsUnderline t (take k q)"
      by simp_all
    have "length (take (length target) q) = length target"
      by (simp only: pre)
    then have len: "length target \<le> length q" by simp
    have "endsUnderline t (take k (q @ [x]))" if "length target < k" "k \<le> length (q @ [x])" for k
    proof (cases "k \<le> length q")
      case True
      then show ?thesis using all that by simp
    next
      case False
      with that have "k = Suc (length q)" by simp
      then show ?thesis using \<open>endsUnderline t (q @ [x])\<close> by simp
    qed
    then show ?thesis using pre ne len by simp
  qed
qed

text \<open>The loop of \<^verbatim>\<open>insertAfter\<close> finds the insertion point.\<close>

lemma insertAfter_target_insertionPoint:
  "node_at t p = Some n \<Longrightarrow> p \<noteq> [] \<Longrightarrow> \<not> isUnderline t \<Longrightarrow>
   \<exists>target. insertionPoint t p = Some target \<and> target \<noteq> [] \<and> insertAfter_target t p = Inr target"
proof (induction t p arbitrary: n rule: insertAfter_target.induct)
  case (1 t p)
  from node_at_parent [OF "1.prems"(1,2)] obtain par where par: "node_at t (butlast p) = Some par"
    and l: "last p < length (children par)" by blast
  have p: "p = butlast p @ [last p]" using "1.prems"(2) by simp
  show ?case
  proof (cases "Suc (last p) = length (children par) \<and> isUnderline par")
    case True
    have bne: "butlast p \<noteq> []"
    proof
      assume "butlast p = []"
      with par have "par = t" by simp
      with True "1.prems"(3) show False by simp
    qed
    have e: "endsUnderline t p"
      using True par "1.prems"(2) by (simp add: endsUnderline_def)
    have r: "insertAfter_target t p = insertAfter_target t (butlast p)"
      using True par l "1.prems"(2) by (subst insertAfter_target.simps) simp
    have i: "insertionPoint t p = insertionPoint t (butlast p)"
      using insertionPoint_snoc [of t "butlast p" "last p"] e p by simp
    from True l have c1: "\<not> \<not> last p < length (children par)" by simp
    from "1.IH" [OF "1.prems"(2) par c1 True par bne "1.prems"(3)]
    show ?thesis using r i by simp
  next
    case False
    have e: "\<not> endsUnderline t p"
      using False par by (auto simp: endsUnderline_def)
    have "insertAfter_target t p = Inr p"
      using False par l "1.prems"(2) by (subst insertAfter_target.simps) auto
    moreover have "insertionPoint t p = Some p"
      using insertionPoint_snoc [of t "butlast p" "last p"] e p by simp
    ultimately show ?thesis using "1.prems"(2) by simp
  qed
qed

lemma updateContent_splits_content_general:
  assumes c: "0 \<le> count s" and n: "node_at (root s) node = Some n"
    and ty: "ntype n = Text \<or> ntype n = Chord" and one: "length (content n) = 1"
    and ne: "newContent \<noteq> []" and rt: "ntype (root s) = Root"
  shows "\<exists>target. insertionPoint (root s) node = Some target \<and> target \<noteq> [] \<and>
         fst (updateContent node newContent s) = Inr () \<and>
         node_at (root (snd (updateContent node newContent s))) node
           = Some (setContent [hd newContent] n) \<and>
         childrenAt (root (snd (updateContent node newContent s))) (butlast target)
           = take (Suc (last target))
               (childrenAt (update_at node (setContent [hd newContent]) (root s)) (butlast target))
             @ createTextNodes (tl newContent)
             @ drop (Suc (last target))
               (childrenAt (update_at node (setContent [hd newContent]) (root s)) (butlast target))"
proof -
  let ?t1 = "update_at node (setContent [hd newContent]) (root s)"
  let ?nodes = "createTextNodes (tl newContent) :: 'a SheetNode list"
  have nu: "\<not> isUnderline (root s)" using rt by (simp add: isUnderline_def)
  have nne: "node \<noteq> []"
  proof
    assume "node = []"
    with n have "n = root s" by simp
    with ty rt show False by auto
  qed
  from insertAfter_target_insertionPoint [OF n nne nu] obtain target
    where ip: "insertionPoint (root s) node = Some target" and tne: "target \<noteq> []"
      and tg: "insertAfter_target (root s) node = Inr target" by blast
  let ?P = "butlast target" and ?l = "last target"
  let ?t2 = "splice_at ?P (Suc ?l) ?nodes ?t1"
  have n1: "node_at ?t1 node = Some (setContent [hd newContent] n)"
    using n by (simp add: node_at_update_at)
  have tg1: "insertAfter_target ?t1 node = Inr target"
    using insertAfter_target_shape [of ?t1 "root s" node] tg
    by (simp add: shape_update_setContent)
  from insertAfter_target_SomeD [OF tg1] obtain r par where pr: "node = target @ r"
    and par: "node_at ?t1 ?P = Some par" and l: "?l < length (children par)" by blast
  have node: "node = ?P @ ?l # r"
    using pr tne by (metis append.assoc append_butlast_last_id append_Cons append_Nil)
  let ?final = "if tl newContent = [] then ?t1 else ?t2"
  let ?s1 = "(beginOperation s)\<lparr>root := ?t1\<rparr>"
  have body: "updateContent_body node newContent (beginOperation s) =
                (Inr (), (beginOperation s)\<lparr>root := ?final\<rparr>)"
  proof (cases "tl newContent = []")
    case True
    then show ?thesis using n ty one ne
      by (auto simp: updateContent_body_def beginOperation_def Let_def)
  next
    case False
    have ib: "insertAfter_body node ?nodes (root ?s1) = Inr ?t2"
      using tg1 by (simp add: insertAfter_body_def beginOperation_def)
    have "insertAfter node ?nodes ?s1 = (Inr (), ?s1\<lparr>root := ?t2\<rparr>)"
      unfolding insertAfter_def
      using runAtomOperation_onRoot [of ?s1 "insertAfter_body node ?nodes" ?t2] ib c
      by (simp add: beginOperation_def)
    then show ?thesis using n ty one ne False
      by (auto simp: updateContent_body_def beginOperation_def Let_def)
  qed
  have res: "updateContent node newContent s =
        (Inr (), if count s = 0 then addHistory (s\<lparr>root := ?final\<rparr>) else s\<lparr>root := ?final\<rparr>)"
    unfolding updateContent_def
    using runAtomOperation_frame [of "updateContent_body node newContent" s "Inr ()"
        "(beginOperation s)\<lparr>root := ?final\<rparr>"] body c
    by (simp add: beginOperation_def)
  then have root: "root (snd (updateContent node newContent s)) = ?final" by simp
  have at_node: "node_at ?final node = Some (setContent [hd newContent] n)"
  proof (cases "tl newContent = []")
    case True
    then show ?thesis using n1 by simp
  next
    case False
    have "node_at ?t2 (?P @ ?l # r) = node_at ?t1 (?P @ ?l # r)"
      by (rule node_at_splice_before [OF par l]) simp
    then show ?thesis using False n1 node by simp
  qed
  have kids: "childrenAt ?final ?P =
      take (Suc ?l) (childrenAt ?t1 ?P) @ ?nodes @ drop (Suc ?l) (childrenAt ?t1 ?P)"
  proof (cases "tl newContent = []")
    case True
    then show ?thesis by (simp add: createTextNodes_def)
  next
    case False
    have "?t2 = putChildren ?P (take (Suc ?l) (children par) @ ?nodes @ drop (Suc ?l) (children par)) ?t1"
      by (rule prims_put(1) [OF par])
    then show ?thesis
      using False node_at_putChildren [OF par] by (simp add: childrenAt_def par)
  qed
  show ?thesis
    using ip tne res at_node kids unfolding root by simp
qed

text \<open>
  C9 (as amended). An empty new content always fails. In a document whose root has type
  \<open>Root\<close>, for a text or chord node whose current content is a single character, and a
  non-empty new content, \<^verbatim>\<open>updateContent\<close> succeeds; afterwards the node holds the
  first character, and one new text node per remaining character stands, in order, right
  after the insertion point among the children of the insertion point's parent. The
  insertion point is the nearest of the node and its ancestors that is not the last
  child of an underline: it is a prefix of the node's path that does not end an
  underline, and every longer prefix, up to the node itself, ends an underline. So the
  new nodes are siblings of the node unless the node is the last child of an underline,
  and then they follow the outermost underline that the node ends.
\<close>

theorem updateContent_splits_content:
  "isl (fst (updateContent node [] s)) \<and>
   (0 \<le> count s \<and> ntype (root s) = Root \<and> node_at (root s) node = Some n \<and>
    (ntype n = Text \<or> ntype n = Chord) \<and> length (content n) = 1 \<and> newContent \<noteq> [] \<longrightarrow>
    (\<exists>target.
       insertionPoint (root s) node = Some target \<and> target \<noteq> [] \<and>
       take (length target) node = target \<and> \<not> endsUnderline (root s) target \<and>
       (\<forall>k. length target < k \<and> k \<le> length node \<longrightarrow> endsUnderline (root s) (take k node)) \<and>
       fst (updateContent node newContent s) = Inr () \<and>
       node_at (root (snd (updateContent node newContent s))) node
         = Some (SheetNode (ntype n) [hd newContent] (chord n) (children n)) \<and>
       childrenAt (root (snd (updateContent node newContent s))) (butlast target)
         = take (Suc (last target))
             (childrenAt (update_at node (setContent [hd newContent]) (root s)) (butlast target))
           @ map (\<lambda>ch. SheetNode Text [ch] None []) (tl newContent)
           @ drop (Suc (last target))
             (childrenAt (update_at node (setContent [hd newContent]) (root s)) (butlast target))))"
proof (intro conjI impI)
  show "isl (fst (updateContent node [] s))"
    unfolding updateContent_def by (rule run_failure) (rule updateContent_body_empty)
next
  assume a: "0 \<le> count s \<and> ntype (root s) = Root \<and> node_at (root s) node = Some n \<and>
    (ntype n = Text \<or> ntype n = Chord) \<and> length (content n) = 1 \<and> newContent \<noteq> []"
  then have c: "0 \<le> count s" and rt: "ntype (root s) = Root"
    and n: "node_at (root s) node = Some n" and ty: "ntype n = Text \<or> ntype n = Chord"
    and one: "length (content n) = 1" and ne: "newContent \<noteq> []" by simp_all
  have eq: "setContent [hd newContent] n = SheetNode (ntype n) [hd newContent] (chord n) (children n)"
    by (simp add: setContent_def)
  from updateContent_splits_content_general [OF c n ty one ne rt] obtain target
    where t: "insertionPoint (root s) node = Some target" "target \<noteq> []"
      "fst (updateContent node newContent s) = Inr ()"
      "node_at (root (snd (updateContent node newContent s))) node
         = Some (setContent [hd newContent] n)"
      "childrenAt (root (snd (updateContent node newContent s))) (butlast target)
         = take (Suc (last target))
             (childrenAt (update_at node (setContent [hd newContent]) (root s)) (butlast target))
           @ createTextNodes (tl newContent)
           @ drop (Suc (last target))
             (childrenAt (update_at node (setContent [hd newContent]) (root s)) (butlast target))"
    by blast
  from insertionPoint_SomeD [OF t(1)] t(1-3) t(4) [unfolded eq]
    t(5) [unfolded createTextNodes_def createTextNode_def]
  show "\<exists>target.
       insertionPoint (root s) node = Some target \<and> target \<noteq> [] \<and>
       take (length target) node = target \<and> \<not> endsUnderline (root s) target \<and>
       (\<forall>k. length target < k \<and> k \<le> length node \<longrightarrow> endsUnderline (root s) (take k node)) \<and>
       fst (updateContent node newContent s) = Inr () \<and>
       node_at (root (snd (updateContent node newContent s))) node
         = Some (SheetNode (ntype n) [hd newContent] (chord n) (children n)) \<and>
       childrenAt (root (snd (updateContent node newContent s))) (butlast target)
         = take (Suc (last target))
             (childrenAt (update_at node (setContent [hd newContent]) (root s)) (butlast target))
           @ map (\<lambda>ch. SheetNode Text [ch] None []) (tl newContent)
           @ drop (Suc (last target))
             (childrenAt (update_at node (setContent [hd newContent]) (root s)) (butlast target))"
    by blast
qed

lemma insertionPoint_sheet5: "insertionPoint sheet5 [1, 1, 1] = Some [1]"
  by (simp add: insertionPoint_def parentsOf_def endsUnderline_def sheet5_def isUnderline_def
      numeral_3_eq_3)

theorem updateContent_splits_content_witness:
  "0 \<le> count (newSheetEditorCore (0::int) sheet5) \<and>
   ntype (root (newSheetEditorCore (0::int) sheet5)) = Root \<and>
   node_at (root (newSheetEditorCore (0::int) sheet5)) [1, 1, 1] = Some (SheetNode Chord ''c'' (Some 3) []) \<and>
   insertionPoint (root (newSheetEditorCore (0::int) sheet5)) [1, 1, 1] = Some [1] \<and>
   isl (fst (updateContent [1, 1, 1] [] (newSheetEditorCore (0::int) sheet5))) \<and>
   fst (updateContent [1, 1, 1] ''xyz'' (newSheetEditorCore (0::int) sheet5)) = Inr () \<and>
   node_at (root (snd (updateContent [1, 1, 1] ''xyz'' (newSheetEditorCore (0::int) sheet5)))) [1, 1, 1]
     = Some (SheetNode Chord ''x'' (Some 3) []) \<and>
   childrenAt (root (snd (updateContent [1, 1, 1] ''xyz'' (newSheetEditorCore (0::int) sheet5)))) []
     = children sheet5_written"
proof -
  let ?e = "newSheetEditorCore (0::int) sheet5"
  have r: "root ?e = sheet5" by (simp add: newSheetEditorCore_def)
  have c: "0 \<le> count ?e" by (simp add: newSheetEditorCore_def)
  have rt: "ntype (root ?e) = Root" unfolding r by (simp add: sheet5_def)
  have n: "node_at (root ?e) [1, 1, 1] = Some (SheetNode Chord ''c'' (Some 3) [])"
    unfolding r by (simp add: sheet5_def)
  have ip: "insertionPoint (root ?e) [1, 1, 1] = Some [1]"
    unfolding r by (rule insertionPoint_sheet5)
  have h: "0 \<le> count ?e \<and> ntype (root ?e) = Root \<and>
      node_at (root ?e) [1, 1, 1] = Some (SheetNode Chord ''c'' (Some 3) []) \<and>
      (ntype (SheetNode Chord ''c'' (Some (3::int)) []) = Text \<or>
       ntype (SheetNode Chord ''c'' (Some (3::int)) []) = Chord) \<and>
      length (content (SheetNode Chord ''c'' (Some (3::int)) [])) = 1 \<and> ''xyz'' \<noteq> []"
    by (intro conjI c rt n) simp_all
  note th = updateContent_splits_content
    [of "[1, 1, 1]" ?e "SheetNode Chord ''c'' (Some 3) []" "''xyz''"]
  from th have e: "isl (fst (updateContent [1, 1, 1] [] ?e))" by (rule conjunct1)
  from th [THEN conjunct2, THEN mp, OF h]
  obtain target where t: "insertionPoint (root ?e) [1, 1, 1] = Some target"
    and ok: "fst (updateContent [1, 1, 1] ''xyz'' ?e) = Inr ()"
    and at: "node_at (root (snd (updateContent [1, 1, 1] ''xyz'' ?e))) [1, 1, 1]
         = Some (SheetNode (ntype (SheetNode Chord ''c'' (Some (3::int)) [])) [hd ''xyz'']
              (chord (SheetNode Chord ''c'' (Some (3::int)) []))
              (children (SheetNode Chord ''c'' (Some (3::int)) [])))"
    and kids: "childrenAt (root (snd (updateContent [1, 1, 1] ''xyz'' ?e))) (butlast target)
         = take (Suc (last target))
             (childrenAt (update_at [1, 1, 1] (setContent [hd ''xyz'']) (root ?e)) (butlast target))
           @ map (\<lambda>ch. SheetNode Text [ch] None []) (tl ''xyz'')
           @ drop (Suc (last target))
             (childrenAt (update_at [1, 1, 1] (setContent [hd ''xyz'']) (root ?e)) (butlast target))"
    by blast
  from t ip have tg: "target = [1]" by simp
  have k: "childrenAt (root (snd (updateContent [1, 1, 1] ''xyz'' ?e))) [] = children sheet5_written"
    using kids unfolding tg r
    by (simp add: sheet5_def sheet5_written_def childrenAt_def createTextNodes_def
        createTextNode_def setContent_def setChildren_def)
  have a: "node_at (root (snd (updateContent [1, 1, 1] ''xyz'' ?e))) [1, 1, 1]
     = Some (SheetNode Chord ''x'' (Some 3) [])"
    using at by simp
  show ?thesis using c rt n ip e ok a k by simp
qed

text \<open>
  C9 as stated fails: for the last chord of the underline over three chords, the content
  \<open>xy\<close> is written successfully, the underline keeps its three children, and the new text
  node becomes a sibling of the underline, not of the chord.
\<close>

theorem updateContent_after_last_chord_of_underline:
  "updateContent [0, 2] ''xy'' (newSheetEditorCore (0::int) sheet3) =
     (Inr (), addHistory ((newSheetEditorCore 0 sheet3)\<lparr>root := sheet3_written\<rparr>)) \<and>
   childrenAt sheet3_written [0] =
     [SheetNode Chord ''a'' (Some 1) [], SheetNode Chord ''b'' (Some 2) [],
      SheetNode Chord ''x'' (Some 3) []] \<and>
   childrenAt sheet3_written [] =
     [SheetNode Underline [] None
        [SheetNode Chord ''a'' (Some 1) [], SheetNode Chord ''b'' (Some 2) [],
         SheetNode Chord ''x'' (Some 3) []],
      SheetNode Text ''y'' None []]"
proof -
  let ?e = "newSheetEditorCore (0::int) sheet3"
  let ?t1 = "update_at [0, 2] (setContent ''x'') sheet3"
  let ?s1 = "(beginOperation ?e)\<lparr>root := ?t1\<rparr>"
  have ib: "insertAfter_body [0, 2] (createTextNodes ''y'') (root ?s1) = Inr sheet3_written"
    by (simp add: insertAfter_body_def insertAfter_target.simps splice_at_def sheet3_def
        sheet3_written_def isUnderline_def setContent_def setChildren_def createTextNodes_def
        createTextNode_def beginOperation_def)
  have "insertAfter [0, 2] (createTextNodes ''y'') ?s1 = (Inr (), ?s1\<lparr>root := sheet3_written\<rparr>)"
    unfolding insertAfter_def
    using runAtomOperation_onRoot [of ?s1 "insertAfter_body [0, 2] (createTextNodes ''y'')"
        sheet3_written] ib
    by (simp add: beginOperation_def newSheetEditorCore_def)
  then have body: "updateContent_body [0, 2] ''xy'' (beginOperation ?e) =
      (Inr (), (beginOperation ?e)\<lparr>root := sheet3_written\<rparr>)"
    by (simp add: updateContent_body_def Let_def beginOperation_def newSheetEditorCore_def sheet3_def)
  have "updateContent [0, 2] ''xy'' ?e = (Inr (), addHistory (?e\<lparr>root := sheet3_written\<rparr>))"
    unfolding updateContent_def
    using runAtomOperation_frame [of "updateContent_body [0, 2] ''xy''" ?e "Inr ()"
        "(beginOperation ?e)\<lparr>root := sheet3_written\<rparr>"] body
    by (simp add: beginOperation_def newSheetEditorCore_def)
  then show ?thesis by (simp add: sheet3_written_def childrenAt_def)
qed

end
